theory Spec2Isabelle
  imports Main "HOL-Library.Word" "HOL-Library.AList"
begin

unbundle bit_operations_syntax

chapter \<open>goreload: a live-reload notifier, its watcher and its stream handler\<close>

text \<open>
  The development embeds the Go package \<^verbatim>\<open>goreload\<close>: the directory fingerprint and the
  polling watcher of \<^verbatim>\<open>watcher.go\<close>, and the \<^verbatim>\<open>Reloader\<close> with its subscriber registry,
  broadcast, shutdown, cache middleware and server-sent-events handler.

  Go values that live on the heap and are shared (channels, \<^verbatim>\<open>sync.Once\<close> values,
  cancellable contexts) are kept in an explicit store and named by references; every
  method of the \<^verbatim>\<open>Reloader\<close> runs under its mutex and is one atomic transition of the
  store. A Go panic is a value of type \<open>panic\<close>, returned on the left of a sum.
\<close>

section \<open>Definitions\<close>

subsection \<open>Formatting: \<^verbatim>\<open>%d\<close> and hexadecimal\<close>

definition digitChar :: "nat \<Rightarrow> char" where
  "digitChar n = ''0123456789'' ! n"

text \<open>Base-ten digits of a natural number, most significant first, as \<^verbatim>\<open>strconv\<close> prints them.\<close>

function digitsOf :: "nat \<Rightarrow> string" where
  "digitsOf n = (if n < 10 then [digitChar n] else digitsOf (n div 10) @ [digitChar (n mod 10)])"
  by pat_completeness auto
termination
  by (relation "measure id") auto

declare digitsOf.simps [simp del]

text \<open>The verb \<^verbatim>\<open>%d\<close> of \<^verbatim>\<open>fmt\<close> on a signed integer.\<close>

definition fmtD :: "int \<Rightarrow> string" where
  "fmtD i = (if i < 0 then CHR ''-'' # digitsOf (nat (- i)) else digitsOf (nat i))"

text \<open>\<^verbatim>\<open>fmt.Sprintf("%s:%d:%d;", path, mtime, size)\<close>.\<close>

definition fmtRecord :: "string \<Rightarrow> int \<Rightarrow> int \<Rightarrow> string" where
  "fmtRecord path mtime sz = path @ '':'' @ fmtD mtime @ '':'' @ fmtD sz @ '';''"

definition hexDigit :: "nat \<Rightarrow> char" where
  "hexDigit n = ''0123456789abcdef'' ! n"

text \<open>\<^verbatim>\<open>hex.EncodeToString\<close>: two lower-case digits for each byte, high nibble first.\<close>

definition EncodeToString :: "8 word list \<Rightarrow> string" where
  "EncodeToString bs =
     concat (map (\<lambda>b. [hexDigit (unat (drop_bit 4 b)), hexDigit (unat (take_bit 4 b))]) bs)"

text \<open>
  A SHA-1 digest is 20 bytes, here a 160-bit word read big-endian. The hash function
  itself belongs to \<^verbatim>\<open>crypto/sha1\<close>, not to this package: every definition that hashes
  takes it as the parameter \<open>sha1\<close>, from the bytes written to the hasher to the digest
  that \<^verbatim>\<open>Sum(nil)\<close> returns.
\<close>

type_synonym digest = "160 word"

definition digestBytes :: "digest \<Rightarrow> 8 word list" where
  "digestBytes d = map (\<lambda>i. ucast (drop_bit (8 * (19 - i)) d)) [0..<20]"

subsection \<open>Directory trees and \<^verbatim>\<open>fs.WalkDir\<close>\<close>

text \<open>
  An \<^verbatim>\<open>error\<close> value is its message. A directory tree, as \<^verbatim>\<open>fs.WalkDir\<close> sees it through
  an \<^verbatim>\<open>fs.FS\<close>:
  \<^item> \<open>File m s\<close> is a regular file whose \<^verbatim>\<open>Info()\<close> succeeds, with
    \<^verbatim>\<open>ModTime().UnixNano()\<close> \<open>m\<close> and \<^verbatim>\<open>Size()\<close> \<open>s\<close> (both \<^verbatim>\<open>int64\<close> values);
  \<^item> \<open>Other m s\<close> is an entry that is neither a directory nor a regular file (a symbolic
    link, a device, a socket, a named pipe) whose \<^verbatim>\<open>Info()\<close> succeeds, with modification
    time \<open>m\<close> and size \<open>s\<close>;
  \<^item> \<open>FileErr e\<close> is an entry that is not a directory and whose \<^verbatim>\<open>Info()\<close> fails with \<open>e\<close>;
  \<^item> \<open>Dir es\<close> is a directory whose \<^verbatim>\<open>ReadDir\<close> returns the named entries \<open>es\<close>, in the
    order it returns them (sorted by file name, by its contract);
  \<^item> \<open>DirErr e\<close> is a directory whose \<^verbatim>\<open>ReadDir\<close> fails with \<open>e\<close>.
  The file system is its root entry, or \<open>StatErr e\<close> when \<^verbatim>\<open>Stat\<close> of the root fails.
\<close>

type_synonym err = string

datatype entry =
    File int int
  | Other int int
  | FileErr err
  | Dir "(string \<times> entry) list"
  | DirErr err

datatype fsys = StatErr err | Root entry

fun IsDir :: "entry \<Rightarrow> bool" where
  "IsDir (Dir es) = True"
| "IsDir (DirErr e) = True"
| "IsDir (File m s) = False"
| "IsDir (Other m s) = False"
| "IsDir (FileErr e) = False"

text \<open>
  \<^verbatim>\<open>path.Join(name, d.Name())\<close> for the names \<^verbatim>\<open>WalkDir\<close> builds: below the root \<^verbatim>\<open>"."\<close>
  the path is the entry's name, elsewhere the two joined by a slash.
\<close>

definition joinPath :: "string \<Rightarrow> string \<Rightarrow> string" where
  "joinPath name n = (if name = ''.'' then n else name @ ''/'' @ n)"

text \<open>
  The callback of \<^verbatim>\<open>WalkDir\<close>: path, entry (\<open>None\<close> is Go's \<^verbatim>\<open>nil\<close>), incoming error,
  and the state the closure writes to; it returns its error and the new state.
\<close>

type_synonym 'h walkFn = "string \<Rightarrow> entry option \<Rightarrow> err option \<Rightarrow> 'h \<Rightarrow> err option \<times> 'h"

text \<open>
  \<^verbatim>\<open>fs.walkDir\<close>: the callback is called on the entry; a directory is then read, a read
  error is reported to the callback in a second call, and the entries are walked in
  order, stopping at the first error. (The callback of this package never returns
  \<^verbatim>\<open>SkipDir\<close> or \<^verbatim>\<open>SkipAll\<close>, so the model leaves their handling out.)
\<close>

fun walkDir :: "'h walkFn \<Rightarrow> string \<Rightarrow> entry \<Rightarrow> 'h \<Rightarrow> err option \<times> 'h"
and walkEntries :: "'h walkFn \<Rightarrow> string \<Rightarrow> (string \<times> entry) list \<Rightarrow> 'h \<Rightarrow> err option \<times> 'h" where
  "walkDir fn name (File m s) h = fn name (Some (File m s)) None h"
| "walkDir fn name (Other m s) h = fn name (Some (Other m s)) None h"
| "walkDir fn name (FileErr e) h = fn name (Some (FileErr e)) None h"
| "walkDir fn name (DirErr e) h =
     (case fn name (Some (DirErr e)) None h of
        (Some e1, h1) \<Rightarrow> (Some e1, h1)
      | (None, h1) \<Rightarrow> fn name (Some (DirErr e)) (Some e) h1)"
| "walkDir fn name (Dir es) h =
     (case fn name (Some (Dir es)) None h of
        (Some e1, h1) \<Rightarrow> (Some e1, h1)
      | (None, h1) \<Rightarrow> walkEntries fn name es h1)"
| "walkEntries fn name [] h = (None, h)"
| "walkEntries fn name ((n, d) # es) h =
     (case walkDir fn (joinPath name n) d h of
        (Some e1, h1) \<Rightarrow> (Some e1, h1)
      | (None, h1) \<Rightarrow> walkEntries fn name es h1)"

definition WalkDir :: "fsys \<Rightarrow> 'h walkFn \<Rightarrow> 'h \<Rightarrow> err option \<times> 'h" where
  "WalkDir dir fn h =
     (case dir of
        StatErr e \<Rightarrow> fn ''.'' None (Some e) h
      | Root d \<Rightarrow> walkDir fn ''.'' d h)"

subsection \<open>\<^verbatim>\<open>directoryFingerprint\<close>\<close>

text \<open>
  The closure passed to \<^verbatim>\<open>WalkDir\<close>. Its state is the hasher, modelled by the bytes
  written to it so far. An incoming error is returned; a directory is skipped; for any
  other entry \<^verbatim>\<open>Info()\<close> is taken (its error returned) and one formatted record is written.
  The closure does not ask whether the entry is a regular file.
  \<^verbatim>\<open>WalkDir\<close> passes a \<^verbatim>\<open>nil\<close> entry only together with an error, so the last case never
  runs; Go would panic there on \<^verbatim>\<open>d.IsDir()\<close>.
\<close>

fun fingerprintVisit :: "string walkFn" where
  "fingerprintVisit path d (Some e) hasher = (Some e, hasher)"
| "fingerprintVisit path (Some (Dir es)) None hasher = (None, hasher)"
| "fingerprintVisit path (Some (DirErr e)) None hasher = (None, hasher)"
| "fingerprintVisit path (Some (FileErr e)) None hasher = (Some e, hasher)"
| "fingerprintVisit path (Some (File m s)) None hasher = (None, hasher @ fmtRecord path m s)"
| "fingerprintVisit path (Some (Other m s)) None hasher = (None, hasher @ fmtRecord path m s)"
| "fingerprintVisit path None None hasher = (Some ''nil DirEntry'', hasher)"

text \<open>The result is Go's pair \<^verbatim>\<open>(string, error)\<close>; \<open>None\<close> is the \<^verbatim>\<open>nil\<close> error.\<close>

definition directoryFingerprint :: "(string \<Rightarrow> digest) \<Rightarrow> fsys \<Rightarrow> string \<times> err option" where
  "directoryFingerprint sha1 dir =
     (case WalkDir dir fingerprintVisit [] of
        (Some e, hasher) \<Rightarrow> ([], Some e)
      | (None, hasher) \<Rightarrow> (EncodeToString (digestBytes (sha1 hasher)), None))"

text \<open>
  The specification's reading of a tree, for comparison with the code: the tuples
  (relative path, modification time, size) of its regular files, in traversal order.
  Directories give no tuple of their own, and neither do entries that are not regular
  files.
\<close>

fun spec_tracked :: "string \<Rightarrow> entry \<Rightarrow> (string \<times> int \<times> int) list"
and spec_tracked_entries :: "string \<Rightarrow> (string \<times> entry) list \<Rightarrow> (string \<times> int \<times> int) list" where
  "spec_tracked name (File m s) = [(name, m, s)]"
| "spec_tracked name (Other m s) = []"
| "spec_tracked name (FileErr e) = []"
| "spec_tracked name (DirErr e) = []"
| "spec_tracked name (Dir es) = spec_tracked_entries name es"
| "spec_tracked_entries name [] = []"
| "spec_tracked_entries name ((n, d) # es) =
     spec_tracked (joinPath name n) d @ spec_tracked_entries name es"

definition spec_tracked_files :: "fsys \<Rightarrow> (string \<times> int \<times> int) list" where
  "spec_tracked_files dir = (case dir of StatErr e \<Rightarrow> [] | Root d \<Rightarrow> spec_tracked ''.'' d)"

text \<open>
  The entries for which the walk of the code writes a record: every entry that is not a
  directory, a regular file or not, with its path, modification time and size, in
  traversal order.
\<close>

fun hashed :: "string \<Rightarrow> entry \<Rightarrow> (string \<times> int \<times> int) list"
and hashed_entries :: "string \<Rightarrow> (string \<times> entry) list \<Rightarrow> (string \<times> int \<times> int) list" where
  "hashed name (File m s) = [(name, m, s)]"
| "hashed name (Other m s) = [(name, m, s)]"
| "hashed name (FileErr e) = []"
| "hashed name (DirErr e) = []"
| "hashed name (Dir es) = hashed_entries name es"
| "hashed_entries name [] = []"
| "hashed_entries name ((n, d) # es) = hashed (joinPath name n) d @ hashed_entries name es"

definition hashed_tuples :: "fsys \<Rightarrow> (string \<times> int \<times> int) list" where
  "hashed_tuples dir = (case dir of StatErr e \<Rightarrow> [] | Root d \<Rightarrow> hashed ''.'' d)"

text \<open>A tree of directories and regular files only.\<close>

fun regular_only :: "entry \<Rightarrow> bool"
and regular_only_entries :: "(string \<times> entry) list \<Rightarrow> bool" where
  "regular_only (File m s) = True"
| "regular_only (Other m s) = False"
| "regular_only (FileErr e) = True"
| "regular_only (DirErr e) = True"
| "regular_only (Dir es) = regular_only_entries es"
| "regular_only_entries [] = True"
| "regular_only_entries ((n, d) # es) = (regular_only d \<and> regular_only_entries es)"

definition regular_only_fs :: "fsys \<Rightarrow> bool" where
  "regular_only_fs dir = (case dir of StatErr e \<Rightarrow> True | Root d \<Rightarrow> regular_only d)"

text \<open>A tree every part of which can be read: no \<^verbatim>\<open>Stat\<close>, \<^verbatim>\<open>ReadDir\<close> or \<^verbatim>\<open>Info\<close> fails.\<close>

fun readable :: "entry \<Rightarrow> bool"
and readable_entries :: "(string \<times> entry) list \<Rightarrow> bool" where
  "readable (File m s) = True"
| "readable (Other m s) = True"
| "readable (FileErr e) = False"
| "readable (DirErr e) = False"
| "readable (Dir es) = readable_entries es"
| "readable_entries [] = True"
| "readable_entries ((n, d) # es) = (readable d \<and> readable_entries es)"

definition readable_fs :: "fsys \<Rightarrow> bool" where
  "readable_fs dir = (case dir of StatErr e \<Rightarrow> False | Root d \<Rightarrow> readable d)"

text \<open>The bytes a readable tree feeds to the hasher: one record per tuple.\<close>

fun serialise :: "(string \<times> int \<times> int) list \<Rightarrow> string" where
  "serialise [] = []"
| "serialise ((p, m, s) # r) = fmtRecord p m s @ serialise r"

text \<open>
  A path that does not hold both separators of a record, the colon and the semicolon.
\<close>

definition plain_path :: "string \<Rightarrow> bool" where
  "plain_path p = (CHR '':'' \<notin> set p \<or> CHR '';'' \<notin> set p)"

subsection \<open>\<^verbatim>\<open>float64\<close> arithmetic and \<^verbatim>\<open>time.Duration.Seconds\<close>\<close>

text \<open>
  \<^verbatim>\<open>New\<close> converts the configured duration with \<^verbatim>\<open>int(config.MaxAge.Seconds())\<close>, and
  \<^verbatim>\<open>Seconds\<close> computes in \<^verbatim>\<open>float64\<close>. A finite \<^verbatim>\<open>float64\<close> is modelled by a pair \<open>(m, e)\<close>
  of integers that stands for the number \<open>m * 2 ^ e\<close>. Every operation rounds its exact
  result to a significand of 53 bits, to nearest and ties to even, as IEEE 754 does. The
  values that arise here lie between \<open>10 ^ -9\<close> and \<open>10 ^ 10\<close> in magnitude, far from
  overflow and from the subnormal range, which the model therefore leaves out.
\<close>

type_synonym float64 = "int \<times> int"

text \<open>The number of binary digits of a positive integer.\<close>

function bitlen :: "int \<Rightarrow> int" where
  "bitlen n = (if n \<le> 0 then 0 else 1 + bitlen (n div 2))"
  by pat_completeness auto
termination
  by (relation "measure nat") auto

declare bitlen.simps [simp del]

text \<open>
  The fraction \<open>p / q\<close> of positive integers, rounded: \<open>ex\<close> is the exponent of its leading
  bit, the significand is the quotient scaled to 53 bits, and the remainder decides the
  rounding.
\<close>

definition roundPos :: "int \<Rightarrow> int \<Rightarrow> float64" where
  "roundPos p q =
     (let k = bitlen p - bitlen q;
          ex = (if (if 0 \<le> k then q * 2 ^ nat k \<le> p else q \<le> p * 2 ^ nat (- k)) then k else k - 1);
          e = ex - 52;
          n = (if e \<le> 0 then p * 2 ^ nat (- e) else p);
          d = (if e \<le> 0 then q else q * 2 ^ nat e);
          m = n div d;
          r = n mod d
      in (if 2 * r < d then m else if d < 2 * r then m + 1 else if even m then m else m + 1, e))"

definition roundRat :: "int \<Rightarrow> int \<Rightarrow> float64" where
  "roundRat p q =
     (if p = 0 then (0, 0)
      else if 0 < p then roundPos p q
      else (case roundPos (- p) q of (m, e) \<Rightarrow> (- m, e)))"

text \<open>The conversion \<^verbatim>\<open>float64(x)\<close> of an integer.\<close>

definition float64_of_int :: "int \<Rightarrow> float64" where
  "float64_of_int x = roundRat x 1"

text \<open>The quotient \<^verbatim>\<open>a / b\<close> of two \<^verbatim>\<open>float64\<close> values, for \<open>b\<close> other than zero.\<close>

definition fdiv :: "float64 \<Rightarrow> float64 \<Rightarrow> float64" where
  "fdiv a b =
     (case (a, b) of ((m1, e1), (m2, e2)) \<Rightarrow>
        (let p = (if e2 \<le> e1 then m1 * 2 ^ nat (e1 - e2) else m1);
             q = (if e2 \<le> e1 then m2 else m2 * 2 ^ nat (e2 - e1))
         in if 0 < q then roundRat p q else roundRat (- p) (- q)))"

text \<open>The sum \<^verbatim>\<open>a + b\<close> of two \<^verbatim>\<open>float64\<close> values.\<close>

definition fadd :: "float64 \<Rightarrow> float64 \<Rightarrow> float64" where
  "fadd a b =
     (case (a, b) of ((m1, e1), (m2, e2)) \<Rightarrow>
        (let e = min e1 e2;
             n = m1 * 2 ^ nat (e1 - e) + m2 * 2 ^ nat (e2 - e)
         in if 0 \<le> e then roundRat (n * 2 ^ nat e) 1 else roundRat n (2 ^ nat (- e))))"

text \<open>The conversion \<^verbatim>\<open>int(f)\<close>: the fraction is discarded (truncation towards zero).\<close>

definition int_of_float64 :: "float64 \<Rightarrow> int" where
  "int_of_float64 a =
     (case a of (m, e) \<Rightarrow>
        if 0 \<le> e then m * 2 ^ nat e
        else sgn m * (\<bar>m\<bar> div 2 ^ nat (- e)))"

text \<open>Go's integer quotient and remainder truncate towards zero.\<close>

definition quo :: "int \<Rightarrow> int \<Rightarrow> int" where
  "quo a b = sgn a * sgn b * (\<bar>a\<bar> div \<bar>b\<bar>)"

definition rem :: "int \<Rightarrow> int \<Rightarrow> int" where
  "rem a b = sgn a * (\<bar>a\<bar> mod \<bar>b\<bar>)"

text \<open>
  A \<^verbatim>\<open>time.Duration\<close> is a count of nanoseconds (an \<^verbatim>\<open>int64\<close>). The standard library has
  \<^verbatim>\<open>sec := d / Second; nsec := d % Second; return float64(sec) + float64(nsec)/1e9\<close>.
\<close>

definition Seconds :: "int \<Rightarrow> float64" where
  "Seconds d =
     (let sec = quo d 1000000000; nsec = rem d 1000000000
      in fadd (float64_of_int sec) (fdiv (float64_of_int nsec) (float64_of_int 1000000000)))"

text \<open>
  The specification's conversion of the configured duration, for comparison with the code:
  the duration in nanoseconds, converted to whole seconds by truncation.
\<close>

definition spec_whole_seconds :: "int \<Rightarrow> int" where
  "spec_whole_seconds d = quo d 1000000000"

subsection \<open>Channels, panics and the store\<close>

type_synonym ref = nat

datatype panic = CloseOfClosedChannel | SendOnClosedChannel | NilDereference

text \<open>
  A channel of \<^verbatim>\<open>struct{}\<close>: the values carry nothing, so the buffer is the number of
  values pending in it.
\<close>

record chan =
  pending :: nat
  cap :: nat
  chclosed :: bool

text \<open>\<^verbatim>\<open>make(chan struct{}, n)\<close>.\<close>

definition makeChan :: "nat \<Rightarrow> chan" where
  "makeChan n = \<lparr>pending = 0, cap = n, chclosed = False\<rparr>"

text \<open>\<^verbatim>\<open>close(ch)\<close> panics on a channel that is closed already.\<close>

definition closeChan :: "chan \<Rightarrow> panic + chan" where
  "closeChan c = (if chclosed c then Inl CloseOfClosedChannel else Inr (c\<lparr>chclosed := True\<rparr>))"

text \<open>
  \<^verbatim>\<open>select { case ch <- struct{}{}: default: }\<close>: the send happens when the buffer has
  room, the default branch runs when it is full, and a send on a closed channel panics.
\<close>

definition trySend :: "chan \<Rightarrow> panic + chan" where
  "trySend c =
     (if chclosed c then Inl SendOnClosedChannel
      else if pending c < cap c then Inr (c\<lparr>pending := pending c + 1\<rparr>)
      else Inr c)"

text \<open>
  A receive \<^verbatim>\<open>_, ok := <-ch\<close> as a case of a \<^verbatim>\<open>select\<close>: a pending value is taken
  (\<open>ok\<close> true), a closed and drained channel yields \<open>ok\<close> false, and otherwise the case is
  not ready.
\<close>

datatype received = Value | Drained | NotReady

definition tryRecv :: "chan \<Rightarrow> received \<times> chan" where
  "tryRecv c =
     (if 0 < pending c then (Value, c\<lparr>pending := pending c - 1\<rparr>)
      else if chclosed c then (Drained, c)
      else (NotReady, c))"

subsection \<open>The \<^verbatim>\<open>Reloader\<close>\<close>

text \<open>
  A pointer that may be \<^verbatim>\<open>nil\<close> is an option. The identifiers are Go \<^verbatim>\<open>int\<close>s, 64 bits
  wide, and \<^verbatim>\<open>nextID++\<close> wraps around. The map \<^verbatim>\<open>clients\<close> is an association list with
  one entry for each key; the mutex is not a field, as every method is one step.
\<close>

record Config =
  cfgLogger :: "unit option"
  cfgRoute :: string
  cfgEnabled :: bool
  cfgMaxAge :: int

record Reloader =
  logger :: "unit option"
  closed :: bool
  nextID :: "64 word"
  clients :: "(64 word \<times> ref) list"
  route :: string
  enabled :: bool
  maxAge :: int
  watchCancel :: "ref option"

text \<open>
  The store: the \<^verbatim>\<open>Reloader\<close>, the channels made so far, the \<^verbatim>\<open>sync.Once\<close> values (true
  once done), the cancellable contexts (true once cancelled), and the lines the logger
  has written.
\<close>

record world =
  rl :: Reloader
  chans :: "chan list"
  onces :: "bool list"
  ctxs :: "bool list"
  logs :: "string list"

definition New :: "Config \<Rightarrow> Reloader" where
  "New config =
     \<lparr>logger = cfgLogger config,
      closed = False,
      nextID = 0,
      clients = [],
      route = cfgRoute config,
      enabled = cfgEnabled config,
      maxAge = int_of_float64 (Seconds (cfgMaxAge config)),
      watchCancel = None\<rparr>"

text \<open>The store of a program that has just called \<^verbatim>\<open>New\<close>.\<close>

definition newWorld :: "Config \<Rightarrow> world" where
  "newWorld config = \<lparr>rl = New config, chans = [], onces = [], ctxs = [], logs = []\<rparr>"

text \<open>
  The function that \<^verbatim>\<open>subscribe\<close> returns: the empty function, or the closure over its
  \<^verbatim>\<open>sync.Once\<close> and its identifier.
\<close>

datatype cancelFn = NoopFn | OnceFn ref "64 word"

definition subscribe :: "world \<Rightarrow> (cancelFn \<times> ref option) \<times> world" where
  "subscribe w =
     (let r = rl w in
      if closed r then ((NoopFn, None), w)
      else
        let cid = nextID r; ch = length (chans w); once = length (onces w) in
        ((OnceFn once cid, Some ch),
         w\<lparr>rl := r\<lparr>nextID := cid + 1, clients := AList.update cid ch (clients r)\<rparr>,
           chans := chans w @ [makeChan 1],
           onces := onces w @ [False]\<rparr>))"

text \<open>
  Calling the returned function. Inside \<^verbatim>\<open>once.Do\<close> the closure looks its identifier up
  in the map, closes the channel it finds there and deletes the entry.
\<close>

fun runCancel :: "cancelFn \<Rightarrow> world \<Rightarrow> panic + world" where
  "runCancel NoopFn w = Inr w"
| "runCancel (OnceFn once cid) w =
     (if onces w ! once then Inr w
      else
        let w1 = w\<lparr>onces := (onces w)[once := True]\<rparr> in
        case map_of (clients (rl w1)) cid of
          None \<Rightarrow> Inr w1
        | Some ch \<Rightarrow>
            (case closeChan (chans w1 ! ch) of
               Inl p \<Rightarrow> Inl p
             | Inr c \<Rightarrow>
                 Inr (w1\<lparr>chans := (chans w1)[ch := c],
                         rl := (rl w1)\<lparr>clients := AList.delete cid (clients (rl w1))\<rparr>\<rparr>)))"

text \<open>The loop of \<^verbatim>\<open>Notify\<close> over the entries of the map.\<close>

fun sendAll :: "(64 word \<times> ref) list \<Rightarrow> chan list \<Rightarrow> panic + chan list" where
  "sendAll [] cs = Inr cs"
| "sendAll ((cid, ch) # es) cs =
     (case trySend (cs ! ch) of
        Inl p \<Rightarrow> Inl p
      | Inr c \<Rightarrow> sendAll es (cs[ch := c]))"

definition Notify :: "world \<Rightarrow> panic + world" where
  "Notify w =
     (if closed (rl w) then Inr w
      else case sendAll (clients (rl w)) (chans w) of
        Inl p \<Rightarrow> Inl p
      | Inr cs \<Rightarrow> Inr (w\<lparr>chans := cs\<rparr>))"

text \<open>
  The loop of \<^verbatim>\<open>Close\<close>: each entry's channel is closed and the entry deleted from the
  map \<open>m\<close>.
\<close>

fun closeAll ::
  "(64 word \<times> ref) list \<Rightarrow> (64 word \<times> ref) list \<Rightarrow> chan list \<Rightarrow>
   panic + ((64 word \<times> ref) list \<times> chan list)" where
  "closeAll [] m cs = Inr (m, cs)"
| "closeAll ((cid, ch) # es) m cs =
     (case closeChan (cs ! ch) of
        Inl p \<Rightarrow> Inl p
      | Inr c \<Rightarrow> closeAll es (AList.delete cid m) (cs[ch := c]))"

definition Close :: "world \<Rightarrow> panic + world" where
  "Close w =
     (let w1 = (case watchCancel (rl w) of
                  None \<Rightarrow> w
                | Some c \<Rightarrow> w\<lparr>ctxs := (ctxs w)[c := True]\<rparr>) in
      if closed (rl w1) then Inr w1
      else case closeAll (clients (rl w1)) (clients (rl w1)) (chans w1) of
        Inl p \<Rightarrow> Inl p
      | Inr (m, cs) \<Rightarrow> Inr (w1\<lparr>rl := (rl w1)\<lparr>closed := True, clients := m\<rparr>, chans := cs\<rparr>))"

definition Enabled :: "world \<Rightarrow> bool" where
  "Enabled w = enabled (rl w)"

definition SetEnabled :: "bool \<Rightarrow> world \<Rightarrow> world" where
  "SetEnabled b w = w\<lparr>rl := (rl w)\<lparr>enabled := b\<rparr>\<rparr>"

text \<open>
  \<^verbatim>\<open>r.logger.Error(msg, slog.Any("err", err))\<close>: a \<^verbatim>\<open>nil\<close> logger is dereferenced and
  panics.
\<close>

definition logError :: "string \<Rightarrow> err \<Rightarrow> world \<Rightarrow> panic + world" where
  "logError msg e w =
     (case logger (rl w) of
        None \<Rightarrow> Inl NilDereference
      | Some u \<Rightarrow> Inr (w\<lparr>logs := logs w @ [msg @ '' err='' @ e]\<rparr>))"

subsection \<open>The watcher\<close>

text \<open>
  The part of \<^verbatim>\<open>Start\<close> that runs in the caller: \<^verbatim>\<open>context.WithCancel\<close> makes a new
  context, and its cancel function is stored in the \<^verbatim>\<open>Reloader\<close>, over whatever was there.
\<close>

definition Start :: "world \<Rightarrow> ref \<times> world" where
  "Start w =
     (let c = length (ctxs w) in
      (c, w\<lparr>ctxs := ctxs w @ [False], rl := (rl w)\<lparr>watchCancel := Some c\<rparr>\<rparr>))"

text \<open>
  The goroutine of \<^verbatim>\<open>Start\<close>: its context, its variable \<^verbatim>\<open>lastFingerprint\<close>, and whether
  it has returned.
\<close>

record watcher =
  wctx :: ref
  lastFingerprint :: string
  exited :: bool

text \<open>The goroutine up to its loop: the first fingerprint, its error logged.\<close>

definition watcherBegin ::
  "(string \<Rightarrow> digest) \<Rightarrow> fsys \<Rightarrow> ref \<Rightarrow> world \<Rightarrow> panic + (watcher \<times> world)" where
  "watcherBegin sha1 dir c w =
     (case directoryFingerprint sha1 dir of
        (fp, Some e) \<Rightarrow>
          (case logError ''dev reload watcher failed to read directory'' e w of
             Inl p \<Rightarrow> Inl p
           | Inr w1 \<Rightarrow> Inr (\<lparr>wctx = c, lastFingerprint = fp, exited = False\<rparr>, w1))
      | (fp, None) \<Rightarrow> Inr (\<lparr>wctx = c, lastFingerprint = fp, exited = False\<rparr>, w))"

text \<open>
  One round of the loop, by the case that \<^verbatim>\<open>select\<close> takes: the context is done, or the
  ticker fires while the directory is in the given state.
\<close>

datatype wsel = WDone | WTick fsys

text \<open>
  \<^verbatim>\<open>WDone\<close> is ready only once the context is cancelled; the goroutine then returns and
  its deferred \<^verbatim>\<open>r.Notify()\<close> runs. On a tick the fingerprint is taken: an error is
  logged and the loop continues; a fingerprint that differs from the last one is stored
  and broadcast.
\<close>

definition watcherSelect ::
  "(string \<Rightarrow> digest) \<Rightarrow> wsel \<Rightarrow> watcher \<Rightarrow> world \<Rightarrow> panic + (watcher \<times> world)" where
  "watcherSelect sha1 sel wt w =
     (if exited wt then Inr (wt, w)
      else case sel of
        WDone \<Rightarrow>
          (if ctxs w ! wctx wt
           then (case Notify w of Inl p \<Rightarrow> Inl p | Inr w1 \<Rightarrow> Inr (wt\<lparr>exited := True\<rparr>, w1))
           else Inr (wt, w))
      | WTick dir \<Rightarrow>
          (case directoryFingerprint sha1 dir of
             (fp, Some e) \<Rightarrow>
               (case logError ''dev reload watcher failed to scan directory'' e w of
                  Inl p \<Rightarrow> Inl p
                | Inr w1 \<Rightarrow> Inr (wt, w1))
           | (fp, None) \<Rightarrow>
               (if fp \<noteq> lastFingerprint wt
                then (case Notify w of
                        Inl p \<Rightarrow> Inl p
                      | Inr w1 \<Rightarrow> Inr (wt\<lparr>lastFingerprint := fp\<rparr>, w1))
                else Inr (wt, w))))"

subsection \<open>HTTP: the response writer, the cache middleware and the stream handler\<close>

text \<open>
  An \<^verbatim>\<open>http.ResponseWriter\<close>: its header map, the status code once written, the body
  written so far, the number of flushes, whether it implements \<^verbatim>\<open>http.Flusher\<close>, and
  whether the connection is broken, so that writes fail.
\<close>

record respWriter =
  hdr :: "(string \<times> string) list"
  code :: "nat option"
  out :: string
  flushes :: nat
  isFlusher :: bool
  broken :: bool

record request =
  Method :: string

text \<open>\<^verbatim>\<open>w.Header().Set(k, v)\<close>.\<close>

definition Set :: "string \<Rightarrow> string \<Rightarrow> respWriter \<Rightarrow> respWriter" where
  "Set k v rw = rw\<lparr>hdr := AList.update k v (hdr rw)\<rparr>"





text \<open>
  \<^verbatim>\<open>CacheMiddleware\<close>: the wrapped handler is any function of the response writer, the
  request and the store.
\<close>

definition CacheMiddleware ::
  "(respWriter \<Rightarrow> request \<Rightarrow> world \<Rightarrow> 'a) \<Rightarrow> respWriter \<Rightarrow> request \<Rightarrow> world \<Rightarrow> 'a" where
  "CacheMiddleware handler rw rq w =
     (if \<not> Enabled w then handler rw rq w
      else handler
        (Set ''Cache-Control'' (''stale-while-revalidate, max-age='' @ fmtD (maxAge (rl w))) rw)
        rq w)"








subsection \<open>Programs that use a \<^verbatim>\<open>Reloader\<close>\<close>

text \<open>
  A running program is the store, the subscriptions handed out so far (the cancel
  function and the channel of each) and the watcher goroutines. Its steps are the calls
  that goroutines make, one at a time, in any order: to \<^verbatim>\<open>subscribe\<close>, to the cancel
  function of the \<open>k\<close>-th subscription, to \<^verbatim>\<open>Notify\<close>, \<^verbatim>\<open>Close\<close>, \<^verbatim>\<open>SetEnabled\<close> and
  \<^verbatim>\<open>Start\<close>; a receive on the channel of the \<open>k\<close>-th subscription; and a round of the
  loop of the \<open>k\<close>-th watcher. A step that names a subscription or a watcher that does
  not exist is no step.
\<close>

record sys =
  wld :: world
  subs :: "(cancelFn \<times> ref option) list"
  watchers :: "watcher list"

datatype op =
    OpSubscribe
  | OpCancel nat
  | OpNotify
  | OpClose
  | OpSetEnabled bool
  | OpRecv nat
  | OpStart fsys
  | OpWatch nat wsel

fun step :: "(string \<Rightarrow> digest) \<Rightarrow> op \<Rightarrow> sys \<Rightarrow> panic + sys" where
  "step sha1 OpSubscribe s =
     (case subscribe (wld s) of (sub, w1) \<Rightarrow> Inr (s\<lparr>wld := w1, subs := subs s @ [sub]\<rparr>))"
| "step sha1 (OpCancel k) s =
     (if k < length (subs s)
      then (case runCancel (fst (subs s ! k)) (wld s) of
              Inl p \<Rightarrow> Inl p
            | Inr w1 \<Rightarrow> Inr (s\<lparr>wld := w1\<rparr>))
      else Inr s)"
| "step sha1 OpNotify s =
     (case Notify (wld s) of Inl p \<Rightarrow> Inl p | Inr w1 \<Rightarrow> Inr (s\<lparr>wld := w1\<rparr>))"
| "step sha1 OpClose s =
     (case Close (wld s) of Inl p \<Rightarrow> Inl p | Inr w1 \<Rightarrow> Inr (s\<lparr>wld := w1\<rparr>))"
| "step sha1 (OpSetEnabled b) s = Inr (s\<lparr>wld := SetEnabled b (wld s)\<rparr>)"
| "step sha1 (OpRecv k) s =
     (if k < length (subs s)
      then (case snd (subs s ! k) of
              None \<Rightarrow> Inr s
            | Some ch \<Rightarrow>
                Inr (s\<lparr>wld := (wld s)\<lparr>chans :=
                  (chans (wld s))[ch := snd (tryRecv (chans (wld s) ! ch))]\<rparr>\<rparr>))
      else Inr s)"
| "step sha1 (OpStart dir) s =
     (case Start (wld s) of (c, w1) \<Rightarrow>
        (case watcherBegin sha1 dir c w1 of
           Inl p \<Rightarrow> Inl p
         | Inr (wt, w2) \<Rightarrow> Inr (s\<lparr>wld := w2, watchers := watchers s @ [wt]\<rparr>)))"
| "step sha1 (OpWatch k sel) s =
     (if k < length (watchers s)
      then (case watcherSelect sha1 sel (watchers s ! k) (wld s) of
              Inl p \<Rightarrow> Inl p
            | Inr (wt, w1) \<Rightarrow> Inr (s\<lparr>wld := w1, watchers := (watchers s)[k := wt]\<rparr>))
      else Inr s)"

fun run :: "(string \<Rightarrow> digest) \<Rightarrow> op list \<Rightarrow> sys \<Rightarrow> panic + sys" where
  "run sha1 [] s = Inr s"
| "run sha1 (x # xs) s = (case step sha1 x s of Inl p \<Rightarrow> Inl p | Inr s1 \<Rightarrow> run sha1 xs s1)"

text \<open>The program right after \<^verbatim>\<open>New\<close>.\<close>

definition boot :: "Config \<Rightarrow> sys" where
  "boot config = \<lparr>wld = newWorld config, subs = [], watchers = []\<rparr>"

subsection \<open>Invariants\<close>

text \<open>
  The invariant of the store: a closed \<^verbatim>\<open>Reloader\<close> has no clients; the map has one entry
  for each key and no channel twice; every channel in the map exists and is open; and
  every channel has one slot, holding at most one value.
\<close>

definition wf :: "world \<Rightarrow> bool" where
  "wf w =
     ((closed (rl w) \<longrightarrow> clients (rl w) = []) \<and>
      distinct (map fst (clients (rl w))) \<and>
      distinct (map snd (clients (rl w))) \<and>
      (\<forall>ch \<in> snd ` set (clients (rl w)). ch < length (chans w) \<and> \<not> chclosed (chans w ! ch)) \<and>
      (\<forall>c \<in> set (chans w). cap c = 1 \<and> pending c \<le> 1))"

text \<open>
  The subscriptions of a program. \<open>issued\<close> lists the \<^verbatim>\<open>sync.Once\<close> and the identifier of
  every cancel function handed out. A subscription is in order when its channel and its
  \<^verbatim>\<open>sync.Once\<close> exist and either the map holds its channel under its identifier and the
  \<^verbatim>\<open>sync.Once\<close> is not done, or the map has no entry for its identifier and its channel is
  closed. In a program that is in order no two subscriptions share a \<^verbatim>\<open>sync.Once\<close> or an
  identifier, every identifier handed out is below the number of subscriptions handed
  out, \<^verbatim>\<open>nextID\<close> is that number modulo \<open>2 ^ 64\<close>, and every key of the map is the
  identifier of a subscription.
\<close>

fun issued :: "(cancelFn \<times> ref option) list \<Rightarrow> (ref \<times> 64 word) list" where
  "issued [] = []"
| "issued ((NoopFn, c) # xs) = issued xs"
| "issued ((OnceFn once cid, c) # xs) = (once, cid) # issued xs"

definition handle_ok :: "world \<Rightarrow> cancelFn \<times> ref option \<Rightarrow> bool" where
  "handle_ok w h =
     (case h of
        (NoopFn, c) \<Rightarrow> c = None
      | (OnceFn once cid, None) \<Rightarrow> False
      | (OnceFn once cid, Some ch) \<Rightarrow>
          once < length (onces w) \<and> ch < length (chans w) \<and>
          (case map_of (clients (rl w)) cid of
             Some ch' \<Rightarrow> ch' = ch \<and> \<not> onces w ! once
           | None \<Rightarrow> chclosed (chans w ! ch)))"

definition subs_ok :: "sys \<Rightarrow> bool" where
  "subs_ok s =
     (wf (wld s) \<and>
      (\<forall>h \<in> set (subs s). handle_ok (wld s) h) \<and>
      distinct (map fst (issued (subs s))) \<and>
      distinct (map snd (issued (subs s))) \<and>
      (\<forall>once \<in> fst ` set (issued (subs s)). once < length (onces (wld s))) \<and>
      (\<forall>cid \<in> snd ` set (issued (subs s)). unat cid < length (issued (subs s))) \<and>
      nextID (rl (wld s)) = of_nat (length (issued (subs s))) \<and>
      fst ` set (clients (rl (wld s))) \<subseteq> snd ` set (issued (subs s)))"

text \<open>
  The watchers of a program that was made from \<open>config\<close>: the logger is the configured
  one, every watcher's context exists, and a watcher that has returned has a cancelled
  context.
\<close>

definition watchers_ok :: "Config \<Rightarrow> sys \<Rightarrow> bool" where
  "watchers_ok config s =
     (logger (rl (wld s)) = cfgLogger config \<and>
      (\<forall>wt \<in> set (watchers s).
         wctx wt < length (ctxs (wld s)) \<and> (exited wt \<longrightarrow> ctxs (wld s) ! wctx wt)))"

text \<open>\<^verbatim>\<open>Notify\<close> called \<open>n\<close> times in a row.\<close>

fun NotifyTimes :: "nat \<Rightarrow> world \<Rightarrow> panic + world" where
  "NotifyTimes 0 w = Inr w"
| "NotifyTimes (Suc n) w = (case Notify w of Inl p \<Rightarrow> Inl p | Inr w1 \<Rightarrow> NotifyTimes n w1)"


section \<open>Theorems\<close>

subsection \<open>The fingerprint\<close>

lemma digitsOf_small: "n < 10 \<Longrightarrow> digitsOf n = [digitChar n]"
  by (simp add: digitsOf.simps)

lemma serialise_append: "serialise (a @ b) = serialise a @ serialise b"
  by (induction a) auto

lemma walk_readable:
  "(readable d \<longrightarrow> walkDir fingerprintVisit name d h = (None, h @ serialise (hashed name d)))"
  "(readable_entries es \<longrightarrow> walkEntries fingerprintVisit name es h = (None, h @ serialise (hashed_entries name es)))"
   apply (induction fingerprintVisit name d h and fingerprintVisit name es h rule: walkDir_walkEntries.induct)
  apply (auto simp: serialise_append)
  done

lemma walk_unreadable:
  "(\<not> readable d \<longrightarrow> (\<exists>e h'. walkDir fingerprintVisit name d h = (Some e, h')))"
  "(\<not> readable_entries es \<longrightarrow> (\<exists>e h'. walkEntries fingerprintVisit name es h = (Some e, h')))"
   apply (induction fingerprintVisit name d h and fingerprintVisit name es h rule: walkDir_walkEntries.induct)
       apply (auto simp: serialise_append split: prod.splits option.splits)
  done

lemma digitChar_inj: "a < 10 \<Longrightarrow> b < 10 \<Longrightarrow> digitChar a = digitChar b \<Longrightarrow> a = b"
proof -
  have d: "distinct ''0123456789''" by simp
  assume "a < 10" "b < 10" "digitChar a = digitChar b"
  then show ?thesis
    using nth_eq_iff_index_eq[OF d, of a b] by (simp add: digitChar_def)
qed

lemma digitChar_range: "a < 10 \<Longrightarrow> digitChar a \<in> set ''0123456789''"
  unfolding digitChar_def by (rule nth_mem) simp

lemma digitsOf_big: "\<not> n < 10 \<Longrightarrow> digitsOf n = digitsOf (n div 10) @ [digitChar (n mod 10)]"
  by (subst digitsOf.simps) simp

lemma digitsOf_chars: "set (digitsOf n) \<subseteq> set ''0123456789''"
proof (induction n rule: digitsOf.induct)
  case (1 n)
  show ?case
  proof (cases "n < 10")
    case True
    then show ?thesis using digitChar_range[of n] by (simp add: digitsOf_small)
  next
    case False
    have "n mod 10 < 10" by simp
    then show ?thesis using 1 False digitChar_range[of "n mod 10"] 
      unfolding digitsOf_big[OF False] by simp
  qed
qed

lemma digitsOf_ne: "digitsOf n \<noteq> []"
proof (cases "n < 10")
  case True
  then show ?thesis by (simp add: digitsOf_small)
next
  case False
  then show ?thesis unfolding digitsOf_big[OF False] by simp
qed

lemma digitsOf_len: "\<not> n < 10 \<Longrightarrow> 2 \<le> length (digitsOf n)"
proof -
  assume a: "\<not> n < 10"
  have "1 \<le> length (digitsOf (n div 10))" using digitsOf_ne[of "n div 10"] 
    by (cases "digitsOf (n div 10)") simp_all
  then show ?thesis unfolding digitsOf_big[OF a] by simp
qed

lemma digitsOf_len1: "length (digitsOf n) = 1 \<Longrightarrow> n < 10"
  using digitsOf_len[of n] by (cases "n < 10") simp_all

lemma digitsOf_inj: "digitsOf n = digitsOf m \<Longrightarrow> n = m"
proof (induction n arbitrary: m rule: digitsOf.induct)
  case (1 n)
  show ?case
  proof (cases "n < 10")
    case True
    then have n: "digitsOf n = [digitChar n]" by (rule digitsOf_small)
    then have "length (digitsOf m) = 1" using 1(2) by simp
    then have m: "m < 10" by (rule digitsOf_len1)
    then have "digitsOf m = [digitChar m]" by (rule digitsOf_small)
    then show ?thesis using 1(2) n True m digitChar_inj[of n m] by simp
  next
    case False
    then have n: "digitsOf n = digitsOf (n div 10) @ [digitChar (n mod 10)]" by (rule digitsOf_big)
    have "2 \<le> length (digitsOf m)" using digitsOf_len[OF False] 1(2) by simp
    then have m10: "\<not> m < 10" by (cases "m < 10") (simp_all add: digitsOf_small)
    then have m: "digitsOf m = digitsOf (m div 10) @ [digitChar (m mod 10)]" by (rule digitsOf_big)
    from n m 1(2) have "digitsOf (n div 10) = digitsOf (m div 10)" "digitChar (n mod 10) = digitChar (m mod 10)"
      by auto
    then have "n div 10 = m div 10" "n mod 10 = m mod 10"
      using 1(1)[OF False] digitChar_inj[of "n mod 10" "m mod 10"] by auto
    then show ?thesis by (metis div_mult_mod_eq)
  qed
qed

lemma digitsOf_no_minus: "digitsOf k \<noteq> CHR ''-'' # xs"
proof
  assume "digitsOf k = CHR ''-'' # xs"
  then have "CHR ''-'' \<in> set (digitsOf k)" by simp
  then show False using digitsOf_chars[of k] by auto
qed

lemma fmtD_inj: "fmtD a = fmtD b \<Longrightarrow> a = b"
proof -
  assume e: "fmtD a = fmtD b"
  consider "a < 0" "b < 0" | "a < 0" "\<not> b < 0" | "\<not> a < 0" "b < 0" | "\<not> a < 0" "\<not> b < 0"
    by blast
  then show ?thesis
  proof cases
    case 1
    then have "digitsOf (nat (- a)) = digitsOf (nat (- b))" using e by (simp add: fmtD_def)
    then have "nat (- a) = nat (- b)" by (rule digitsOf_inj)
    then show ?thesis using 1 by simp
  next
    case 2
    then have "digitsOf (nat b) = CHR ''-'' # digitsOf (nat (- a))" using e by (simp add: fmtD_def)
    then show ?thesis using digitsOf_no_minus by blast
  next
    case 3
    then have "digitsOf (nat a) = CHR ''-'' # digitsOf (nat (- b))" using e by (simp add: fmtD_def)
    then show ?thesis using digitsOf_no_minus by blast
  next
    case 4
    then have "digitsOf (nat a) = digitsOf (nat b)" using e by (simp add: fmtD_def)
    then have "nat a = nat b" by (rule digitsOf_inj)
    then show ?thesis using 4 by simp
  qed
qed

lemma digitsOf_no_sep: "CHR '':'' \<notin> set (digitsOf k)" "CHR '';'' \<notin> set (digitsOf k)"
  using digitsOf_chars[of k] by auto

lemma split_at_sep:
  "c \<notin> set a \<Longrightarrow> c \<notin> set a' \<Longrightarrow> a @ c # x = a' @ c # x' \<Longrightarrow> a = a' \<and> x = x'"
proof (induction a arbitrary: a')
  case Nil
  then show ?case by (cases a') auto
next
  case (Cons y a)
  then show ?case by (cases a') auto
qed

lemma split_at_last:
  assumes "c \<notin> set y" "c \<notin> set y'" "x @ c # y = x' @ c # y'"
  shows "x = x' \<and> y = y'"
proof -
  from assms(3) have "rev (x @ c # y) = rev (x' @ c # y')" by simp
  then have e: "rev y @ c # rev x = rev y' @ c # rev x'" by simp
  have "rev y = rev y' \<and> rev x = rev x'"
    by (rule split_at_sep[OF _ _ e]) (simp_all add: assms(1,2))
  then show ?thesis by simp
qed

lemma fmtD_no_sep: "CHR '':'' \<notin> set (fmtD a)" "CHR '';'' \<notin> set (fmtD a)"
  by (simp_all add: fmtD_def digitsOf_no_sep)

lemma fmtRecord_inj_colon:
  assumes "CHR '':'' \<notin> set p" "CHR '':'' \<notin> set p'"
    and "fmtRecord p m s @ x = fmtRecord p' m' s' @ x'"
  shows "p = p' \<and> m = m' \<and> s = s' \<and> x = x'"
proof -
  from assms(3) have e1: "p @ CHR '':'' # (fmtD m @ '':'' @ fmtD s @ '';'' @ x)
      = p' @ CHR '':'' # (fmtD m' @ '':'' @ fmtD s' @ '';'' @ x')"
    by (simp add: fmtRecord_def)
  from split_at_sep[OF assms(1) assms(2) e1]
  have p: "p = p'" and e2: "fmtD m @ CHR '':'' # (fmtD s @ '';'' @ x) = fmtD m' @ CHR '':'' # (fmtD s' @ '';'' @ x')"
    by simp_all
  from split_at_sep[OF fmtD_no_sep(1) fmtD_no_sep(1) e2]
  have m: "fmtD m = fmtD m'" and e3: "fmtD s @ CHR '';'' # x = fmtD s' @ CHR '';'' # x'"
    by simp_all
  from split_at_sep[OF fmtD_no_sep(2) fmtD_no_sep(2) e3]
  have s: "fmtD s = fmtD s'" and x: "x = x'" by simp_all
  show ?thesis using p fmtD_inj[OF m] fmtD_inj[OF s] x by simp
qed

lemma fmtRecord_inj_semicolon:
  assumes "CHR '';'' \<notin> set p" "CHR '';'' \<notin> set p'"
    and "fmtRecord p m s @ x = fmtRecord p' m' s' @ x'"
  shows "p = p' \<and> m = m' \<and> s = s' \<and> x = x'"
proof -
  from assms(3) have e1: "(p @ CHR '':'' # fmtD m @ CHR '':'' # fmtD s) @ CHR '';'' # x
      = (p' @ CHR '':'' # fmtD m' @ CHR '':'' # fmtD s') @ CHR '';'' # x'"
    by (simp add: fmtRecord_def)
  have "p @ CHR '':'' # fmtD m @ CHR '':'' # fmtD s = p' @ CHR '':'' # fmtD m' @ CHR '':'' # fmtD s'
      \<and> x = x'"
    by (rule split_at_sep[OF _ _ e1]) (simp_all add: assms(1,2) fmtD_no_sep)
  then have x: "x = x'"
    and e2: "(p @ CHR '':'' # fmtD m) @ CHR '':'' # fmtD s = (p' @ CHR '':'' # fmtD m') @ CHR '':'' # fmtD s'"
    by simp_all
  from split_at_last[OF fmtD_no_sep(1) fmtD_no_sep(1) e2]
  have s: "fmtD s = fmtD s'" and e3: "p @ CHR '':'' # fmtD m = p' @ CHR '':'' # fmtD m'"
    by simp_all
  from split_at_last[OF fmtD_no_sep(1) fmtD_no_sep(1) e3]
  have p: "p = p'" and m: "fmtD m = fmtD m'" by simp_all
  show ?thesis using p fmtD_inj[OF m] fmtD_inj[OF s] x by simp
qed

lemma fmtRecord_mixed:
  assumes "CHR '':'' \<notin> set p" "CHR '';'' \<in> set p" "CHR '';'' \<notin> set p'"
  shows "fmtRecord p m s @ x \<noteq> fmtRecord p' m' s' @ x'"
proof
  assume e: "fmtRecord p m s @ x = fmtRecord p' m' s' @ x'"
  let ?P = "\<lambda>c. c \<noteq> CHR '';''"
  have l: "takeWhile ?P (fmtRecord p m s @ x) = takeWhile ?P p"
  proof -
    have "fmtRecord p m s @ x = p @ ('':'' @ fmtD m @ '':'' @ fmtD s @ '';'' @ x)"
      by (simp add: fmtRecord_def)
    then show ?thesis using takeWhile_append1[of "CHR '';''" p ?P] assms(2) by simp
  qed
  have "\<And>c. c \<in> set (p' @ CHR '':'' # fmtD m' @ CHR '':'' # fmtD s') \<Longrightarrow> c \<noteq> CHR '';''"
    using assms(3) fmtD_no_sep(2)[of m'] fmtD_no_sep(2)[of s'] by auto
  then have "takeWhile ?P ((p' @ CHR '':'' # fmtD m' @ CHR '':'' # fmtD s') @ CHR '';'' # x')
      = (p' @ CHR '':'' # fmtD m' @ CHR '':'' # fmtD s') @ takeWhile ?P (CHR '';'' # x')"
    by (rule takeWhile_append2)
  then have r: "takeWhile ?P (fmtRecord p' m' s' @ x') = p' @ CHR '':'' # fmtD m' @ CHR '':'' # fmtD s'"
    by (simp add: fmtRecord_def)
  have "CHR '':'' \<in> set (takeWhile ?P (fmtRecord p' m' s' @ x'))"
    unfolding r by simp
  then have "CHR '':'' \<in> set (takeWhile ?P p)" using e l by simp
  then have "CHR '':'' \<in> set p" by (rule set_takeWhileD[THEN conjunct1])
  then show False using assms(1) by simp
qed

lemma fmtRecord_inj:
  assumes "plain_path p" "plain_path p'" "fmtRecord p m s @ x = fmtRecord p' m' s' @ x'"
  shows "p = p' \<and> m = m' \<and> s = s' \<and> x = x'"
proof -
  consider "CHR '':'' \<notin> set p" "CHR '':'' \<notin> set p'"
    | "CHR '';'' \<notin> set p" "CHR '';'' \<notin> set p'"
    | "CHR '':'' \<notin> set p" "CHR '';'' \<in> set p" "CHR '';'' \<notin> set p'"
    | "CHR '':'' \<notin> set p'" "CHR '';'' \<in> set p'" "CHR '';'' \<notin> set p"
    using assms(1,2) unfolding plain_path_def by blast
  then show ?thesis
  proof cases
    case 1
    then show ?thesis using assms(3) by (rule fmtRecord_inj_colon)
  next
    case 2
    then show ?thesis using assms(3) by (rule fmtRecord_inj_semicolon)
  next
    case 3
    then have "fmtRecord p m s @ x \<noteq> fmtRecord p' m' s' @ x'" by (rule fmtRecord_mixed)
    then show ?thesis using assms(3) by simp
  next
    case 4
    then have "fmtRecord p' m' s' @ x' \<noteq> fmtRecord p m s @ x" by (rule fmtRecord_mixed)
    then show ?thesis using assms(3) by simp
  qed
qed

lemma serialise_inj:
  "list_all (\<lambda>(p, m, s). plain_path p) a \<Longrightarrow> list_all (\<lambda>(p, m, s). plain_path p) b \<Longrightarrow>
   serialise a = serialise b \<Longrightarrow> a = b"
proof (induction a arbitrary: b)
  case Nil
  then show ?case by (cases b) (auto simp: fmtRecord_def)
next
  case (Cons t a)
  obtain p m s where t: "t = (p, m, s)" by (cases t)
  show ?case
  proof (cases b)
    case Nil
    then show ?thesis using Cons.prems t by (simp add: fmtRecord_def)
  next
    case (Cons t' b')
    obtain p' m' s' where t': "t' = (p', m', s')" by (cases t')
    have "fmtRecord p m s @ serialise a = fmtRecord p' m' s' @ serialise b'"
      using Cons.prems(3) t t' Cons by simp
    from fmtRecord_inj[OF _ _ this] Cons.prems(1,2) t t' Cons
    have "p = p' \<and> m = m' \<and> s = s' \<and> serialise a = serialise b'" by simp
    then show ?thesis using Cons.IH[of b'] Cons.prems(1,2) t t' Cons by simp
  qed
qed

lemma fingerprint_readable:
  "readable_fs dir \<Longrightarrow> directoryFingerprint sha1 dir =
     (EncodeToString (digestBytes (sha1 (serialise (hashed_tuples dir)))), None)"
  by (cases dir) (simp_all add: readable_fs_def directoryFingerprint_def WalkDir_def
      hashed_tuples_def walk_readable)

lemma fingerprint_unreadable:
  "\<not> readable_fs dir \<Longrightarrow> \<exists>e. directoryFingerprint sha1 dir = ([], Some e)"
proof (cases dir)
  case (StatErr e)
  then show ?thesis by (simp add: directoryFingerprint_def WalkDir_def)
next
  case (Root d)
  assume "\<not> readable_fs dir"
  then have "\<not> readable d" using Root by (simp add: readable_fs_def)
  then obtain e h' where "walkDir fingerprintVisit ''.'' d [] = (Some e, h')"
    using walk_unreadable(1)[of d "''.''" "[]"] by blast
  then show ?thesis using Root by (simp add: directoryFingerprint_def WalkDir_def)
qed

lemma EncodeToString_length: "length (EncodeToString bs) = 2 * length bs"
  by (induction bs) (simp_all add: EncodeToString_def)

lemma fingerprint_length:
  "directoryFingerprint sha1 dir = (fp, None) \<Longrightarrow> length fp = 40"
  by (cases "WalkDir dir fingerprintVisit []")
     (auto simp: directoryFingerprint_def EncodeToString_length digestBytes_def split: option.splits)

lemma hashed_regular:
  "regular_only d \<longrightarrow> hashed name d = spec_tracked name d"
  "regular_only_entries es \<longrightarrow> hashed_entries name es = spec_tracked_entries name es"
  by (induction name d and name es rule: hashed_hashed_entries.induct) auto

lemma hashed_tuples_regular: "regular_only_fs dir \<Longrightarrow> hashed_tuples dir = spec_tracked_files dir"
  by (cases dir) (simp_all add: regular_only_fs_def hashed_tuples_def spec_tracked_files_def
      hashed_regular)

text \<open>
  Claim C1, as the code has it. The walk writes a record for every entry that is not a
  directory, whether it is a regular file or not (a symbolic link is hashed like a file);
  in a tree of directories and regular files these are the tuples of the regular files.
  For two trees that can be read in full, the fingerprint is the hex digest of the
  serialised tuples (relative path, modification time, size) of these entries, in traversal
  order. So two trees with the same tuples have the same fingerprint: an unchanged tree
  fingerprints identically every time, and directories, which give no tuple, contribute
  nothing. Conversely, when no hashed path holds both a colon and a semicolon, two trees
  whose tuples differ (an entry moved, added, removed, resized or touched) feed different
  bytes to the hash, so that their digests can agree only by a collision of the hash.
\<close>

theorem directoryFingerprint_tracks_files:
  assumes "readable_fs d" and "readable_fs d'"
  shows "directoryFingerprint sha1 d =
           (EncodeToString (digestBytes (sha1 (serialise (hashed_tuples d)))), None)
       \<and> (regular_only_fs d \<longrightarrow> hashed_tuples d = spec_tracked_files d)
       \<and> (hashed_tuples d = hashed_tuples d' \<longrightarrow>
            directoryFingerprint sha1 d = directoryFingerprint sha1 d')
       \<and> (list_all (\<lambda>(p, m, s). plain_path p) (hashed_tuples d) \<and>
          list_all (\<lambda>(p, m, s). plain_path p) (hashed_tuples d') \<and>
          hashed_tuples d \<noteq> hashed_tuples d' \<longrightarrow>
            serialise (hashed_tuples d) \<noteq> serialise (hashed_tuples d'))"
  using assms serialise_inj[of "hashed_tuples d" "hashed_tuples d'"]
  by (auto simp: fingerprint_readable hashed_tuples_regular)

theorem directoryFingerprint_tracks_files_witness:
  "\<forall>sha1.
     directoryFingerprint sha1 (Root (Dir [(''a.txt'', File 7 3), (''sub'', Dir [])])) =
     directoryFingerprint sha1 (Root (Dir [(''a.txt'', File 7 3)]))
   \<and> hashed_tuples (Root (Dir [(''a.txt'', File 7 3)])) = [(''a.txt'', 7, 3)]
   \<and> serialise (hashed_tuples (Root (Dir [(''a.txt'', File 7 3)]))) \<noteq>
     serialise (hashed_tuples (Root (Dir [(''a.txt'', File 7 5)])))
   \<and> serialise (hashed_tuples (Root (Dir [(''a:b'', File 7 3), (''c;d'', Other 1 2)]))) \<noteq>
     serialise (hashed_tuples (Root (Dir [(''a:b'', File 7 3), (''c;d'', Other 1 4)])))
   \<and> spec_tracked_files (Root (Dir [(''a:b'', File 7 3), (''c;d'', Other 1 2)])) =
     spec_tracked_files (Root (Dir [(''a:b'', File 7 3), (''c;d'', Other 1 4)]))"
proof
  fix sha1
  have r: "readable_fs (Root (Dir [(''a.txt'', File 7 3), (''sub'', Dir [])]))"
    "readable_fs (Root (Dir [(''a.txt'', File 7 3)]))" "readable_fs (Root (Dir [(''a.txt'', File 7 5)]))"
    "readable_fs (Root (Dir [(''a:b'', File 7 3), (''c;d'', Other 1 2)]))"
    "readable_fs (Root (Dir [(''a:b'', File 7 3), (''c;d'', Other 1 4)]))"
    by (simp_all add: readable_fs_def)
  show "directoryFingerprint sha1 (Root (Dir [(''a.txt'', File 7 3), (''sub'', Dir [])])) =
     directoryFingerprint sha1 (Root (Dir [(''a.txt'', File 7 3)]))
   \<and> hashed_tuples (Root (Dir [(''a.txt'', File 7 3)])) = [(''a.txt'', 7, 3)]
   \<and> serialise (hashed_tuples (Root (Dir [(''a.txt'', File 7 3)]))) \<noteq>
     serialise (hashed_tuples (Root (Dir [(''a.txt'', File 7 5)])))
   \<and> serialise (hashed_tuples (Root (Dir [(''a:b'', File 7 3), (''c;d'', Other 1 2)]))) \<noteq>
     serialise (hashed_tuples (Root (Dir [(''a:b'', File 7 3), (''c;d'', Other 1 4)])))
   \<and> spec_tracked_files (Root (Dir [(''a:b'', File 7 3), (''c;d'', Other 1 2)])) =
     spec_tracked_files (Root (Dir [(''a:b'', File 7 3), (''c;d'', Other 1 4)]))"
    using directoryFingerprint_tracks_files[OF r(1) r(2), of sha1]
      directoryFingerprint_tracks_files[OF r(2) r(3), of sha1]
      directoryFingerprint_tracks_files[OF r(4) r(5), of sha1]
    by (simp add: hashed_tuples_def spec_tracked_files_def regular_only_fs_def joinPath_def
        plain_path_def)
qed

text \<open>
  The equivalence of C1 as stated fails: the records are joined without escaping, so a
  tree with the two files \<^verbatim>\<open>a\<close> and \<^verbatim>\<open>b\<close> and a tree with the single file
  \<^verbatim>\<open>a:1:2;b\<close> write the same bytes \<^verbatim>\<open>a:1:2;b:3:4;\<close> to the hasher and have the same
  fingerprint, for every hash function, although a file was removed and another added.
  Both trees hold regular files only.
\<close>

theorem directoryFingerprint_iff_counterexample:
  "\<forall>sha1.
     readable_fs (Root (Dir [(''a'', File 1 2), (''b'', File 3 4)])) \<and>
     readable_fs (Root (Dir [(''a:1:2;b'', File 3 4)])) \<and>
     directoryFingerprint sha1 (Root (Dir [(''a'', File 1 2), (''b'', File 3 4)])) =
     directoryFingerprint sha1 (Root (Dir [(''a:1:2;b'', File 3 4)])) \<and>
     spec_tracked_files (Root (Dir [(''a'', File 1 2), (''b'', File 3 4)])) \<noteq>
     spec_tracked_files (Root (Dir [(''a:1:2;b'', File 3 4)]))"
  by (simp add: readable_fs_def directoryFingerprint_def WalkDir_def spec_tracked_files_def
      joinPath_def fmtRecord_def fmtD_def digitsOf_small digitChar_def)

subsection \<open>The store invariant holds in every reachable state\<close>

lemma set_update_subset: "set (AList.update k v al) \<subseteq> insert (k, v) (set al)"
  by (induction al) auto

lemma distinct_snd_update:
  "distinct (map snd al) \<Longrightarrow> v \<notin> snd ` set al \<Longrightarrow> distinct (map snd (AList.update k v al))"
proof (induction al)
  case Nil
  then show ?case by simp
next
  case (Cons a al)
  have "snd ` set (AList.update k v al) \<subseteq> insert v (snd ` set al)"
    using set_update_subset[of k v al] by force
  then show ?case using Cons by (cases a) auto
qed

lemma set_delete_subset: "set (AList.delete k al) \<subseteq> set al"
  by (auto simp: AList.delete_eq)

lemma distinct_snd_delete: "distinct (map snd al) \<Longrightarrow> distinct (map snd (AList.delete k al))"
  by (simp add: AList.delete_eq distinct_map_filter)

lemma wf_newWorld: "wf (newWorld config)"
  by (simp add: wf_def newWorld_def New_def)

lemma subscribe_wf: "wf w \<Longrightarrow> wf (snd (subscribe w))"
proof -
  assume w: "wf w"
  show ?thesis
  proof (cases "closed (rl w)")
    case True
    then show ?thesis using w by (simp add: subscribe_def)
  next
    case False
    let ?ch = "length (chans w)"
    let ?al = "AList.update (nextID (rl w)) ?ch (clients (rl w))"
    have fresh: "?ch \<notin> snd ` set (clients (rl w))" using w by (auto simp: wf_def)
    have sub: "snd ` set ?al \<subseteq> insert ?ch (snd ` set (clients (rl w)))"
      using set_update_subset[of "nextID (rl w)" ?ch "clients (rl w)"] by force
    have d1: "distinct (map fst ?al)" using w by (simp add: wf_def AList.distinct_update)
    have d2: "distinct (map snd ?al)" using w fresh by (simp add: wf_def distinct_snd_update)
    have v: "\<forall>ch \<in> snd ` set ?al. ch < length (chans w @ [makeChan 1]) \<and>
        \<not> chclosed ((chans w @ [makeChan 1]) ! ch)"
    proof
      fix ch assume "ch \<in> snd ` set ?al"
      then consider "ch = ?ch" | "ch \<in> snd ` set (clients (rl w))" using sub by blast
      then show "ch < length (chans w @ [makeChan 1]) \<and> \<not> chclosed ((chans w @ [makeChan 1]) ! ch)"
      proof cases
        case 1
        then show ?thesis by (simp add: makeChan_def)
      next
        case 2
        then have "ch < length (chans w) \<and> \<not> chclosed (chans w ! ch)" using w by (auto simp: wf_def)
        then show ?thesis by (simp add: nth_append)
      qed
    qed
    have c: "\<forall>c \<in> set (chans w @ [makeChan 1]). cap c = 1 \<and> pending c \<le> 1"
      using w by (auto simp: wf_def makeChan_def)
    show ?thesis using False d1 d2 v c by (simp add: subscribe_def Let_def wf_def)
  qed
qed

lemma wf_chan:
  "wf w \<Longrightarrow> (i, ch) \<in> set (clients (rl w)) \<Longrightarrow> ch < length (chans w) \<and> \<not> chclosed (chans w ! ch)"
  by (force simp: wf_def)

lemma wf_cap: "wf w \<Longrightarrow> a < length (chans w) \<Longrightarrow> cap (chans w ! a) = 1 \<and> pending (chans w ! a) \<le> 1"
  by (simp add: wf_def)

lemma map_of_snd_mem: "map_of al k = Some v \<Longrightarrow> (k, v) \<in> set al"
  by (rule map_of_SomeD)

lemma runCancel_wf:
  assumes "wf w"
  shows "\<exists>w'. runCancel f w = Inr w' \<and> wf w'"
proof (cases f)
  case NoopFn
  then show ?thesis using assms by simp
next
  case (OnceFn once cid)
  show ?thesis
  proof (cases "onces w ! once")
    case True
    then show ?thesis using assms OnceFn by simp
  next
    case False
    show ?thesis
    proof (cases "map_of (clients (rl w)) cid")
      case None
      then show ?thesis using assms OnceFn False by (simp add: wf_def)
    next
      case (Some ch)
      then have mem: "(cid, ch) \<in> set (clients (rl w))" by (rule map_of_SomeD)
      then have ch: "ch < length (chans w)" "\<not> chclosed (chans w ! ch)"
        using wf_chan[OF assms] by auto
      let ?al = "AList.delete cid (clients (rl w))"
      let ?cs = "(chans w)[ch := (chans w ! ch)\<lparr>chclosed := True\<rparr>]"
      have notin: "ch \<notin> snd ` set ?al"
      proof
        assume "ch \<in> snd ` set ?al"
        then obtain j where j: "(j, ch) \<in> set ?al" by force
        then have "j \<noteq> cid" by (auto simp: AList.delete_eq)
        moreover have "(j, ch) \<in> set (clients (rl w))" using j set_delete_subset by fastforce
        ultimately show False using mem assms
          by (metis wf_def distinct_map eq_key_imp_eq_value inj_on_def snd_conv prod.inject)
      qed
      have v: "\<forall>a \<in> snd ` set ?al. a < length ?cs \<and> \<not> chclosed (?cs ! a)"
      proof
        fix a assume a: "a \<in> snd ` set ?al"
        then have "a \<noteq> ch" using notin by blast
        moreover have "a \<in> snd ` set (clients (rl w))" using a set_delete_subset by fastforce
        ultimately show "a < length ?cs \<and> \<not> chclosed (?cs ! a)" using assms by (auto simp: wf_def)
      qed
      have c: "\<forall>c \<in> set ?cs. cap c = 1 \<and> pending c \<le> 1"
      proof
        fix c assume "c \<in> set ?cs"
        then have "c \<in> insert ((chans w ! ch)\<lparr>chclosed := True\<rparr>) (set (chans w))"
          using set_update_subset_insert by fastforce
        then show "cap c = 1 \<and> pending c \<le> 1" using assms ch(1) by (auto simp: wf_def)
      qed
      have "wf (w\<lparr>onces := (onces w)[once := True], chans := ?cs,
               rl := (rl w)\<lparr>clients := ?al\<rparr>\<rparr>)"
        using assms v c by (simp add: wf_def AList.distinct_delete distinct_snd_delete)
      then show ?thesis using OnceFn False Some ch by (simp add: closeChan_def)
    qed
  qed
qed

lemma trySend_open:
  "\<not> chclosed c \<Longrightarrow> trySend c = Inr (if pending c < cap c then c\<lparr>pending := pending c + 1\<rparr> else c)"
  by (simp add: trySend_def)

lemma sendAll_ok:
  "distinct (map snd es) \<Longrightarrow> \<forall>a \<in> snd ` set es. a < length cs \<and> \<not> chclosed (cs ! a) \<Longrightarrow>
   \<exists>cs'. sendAll es cs = Inr cs' \<and> length cs' = length cs \<and>
      (\<forall>a < length cs. if a \<in> snd ` set es then trySend (cs ! a) = Inr (cs' ! a) else cs' ! a = cs ! a)"
proof (induction es arbitrary: cs)
  case Nil
  then show ?case by simp
next
  case (Cons e es)
  obtain i ch where e: "e = (i, ch)" by (cases e)
  have ch: "ch < length cs" "\<not> chclosed (cs ! ch)" using Cons.prems(2) e by auto
  define c where "c = (if pending (cs ! ch) < cap (cs ! ch) then (cs ! ch)\<lparr>pending := pending (cs ! ch) + 1\<rparr> else cs ! ch)"
  have ts: "trySend (cs ! ch) = Inr c" using ch(2) by (simp add: trySend_open c_def)
  have cc: "\<not> chclosed c" using ch(2) by (simp add: c_def)
  have nin: "ch \<notin> snd ` set es" using Cons.prems(1) e by force
  have d: "distinct (map snd es)" using Cons.prems(1) by simp
  have p: "\<forall>a \<in> snd ` set es. a < length (cs[ch := c]) \<and> \<not> chclosed (cs[ch := c] ! a)"
  proof
    fix a assume a: "a \<in> snd ` set es"
    then have "a \<noteq> ch" using nin by blast
    then show "a < length (cs[ch := c]) \<and> \<not> chclosed (cs[ch := c] ! a)"
      using Cons.prems(2) a by auto
  qed
  from Cons.IH[OF d p] obtain cs' where cs': "sendAll es (cs[ch := c]) = Inr cs'"
    "length cs' = length cs"
    "\<forall>a < length cs. if a \<in> snd ` set es then trySend (cs[ch := c] ! a) = Inr (cs' ! a)
        else cs' ! a = cs[ch := c] ! a"
    by auto
  have "\<forall>a < length cs. if a \<in> snd ` set (e # es) then trySend (cs ! a) = Inr (cs' ! a) else cs' ! a = cs ! a"
  proof (intro allI impI)
    fix a assume a: "a < length cs"
    show "if a \<in> snd ` set (e # es) then trySend (cs ! a) = Inr (cs' ! a) else cs' ! a = cs ! a"
    proof (cases "a = ch")
      case True
      then have "cs' ! a = c" using cs'(3) a nin ch(1) by simp
      then show ?thesis using True ts e by simp
    next
      case False
      have "if a \<in> snd ` set es then trySend (cs[ch := c] ! a) = Inr (cs' ! a)
        else cs' ! a = cs[ch := c] ! a" using cs'(3) a by blast
      then show ?thesis using False e by (simp split: if_splits)
    qed
  qed
  then show ?case using cs'(1,2) ts e by simp
qed

lemma Notify_ok:
  assumes "wf w"
  shows "\<exists>cs'. Notify w = Inr (w\<lparr>chans := cs'\<rparr>) \<and> wf (w\<lparr>chans := cs'\<rparr>) \<and> length cs' = length (chans w) \<and>
      (\<forall>a < length (chans w).
         if a \<in> snd ` set (clients (rl w)) then trySend (chans w ! a) = Inr (cs' ! a)
         else cs' ! a = chans w ! a)"
proof (cases "closed (rl w)")
  case True
  then have "clients (rl w) = []" using assms by (simp add: wf_def)
  then show ?thesis using True assms by (intro exI[of _ "chans w"]) (simp add: Notify_def)
next
  case False
  have p: "\<forall>a \<in> snd ` set (clients (rl w)). a < length (chans w) \<and> \<not> chclosed (chans w ! a)"
    using assms by (simp add: wf_def)
  have d: "distinct (map snd (clients (rl w)))" using assms by (simp add: wf_def)
  from sendAll_ok[OF d p] obtain cs' where cs': "sendAll (clients (rl w)) (chans w) = Inr cs'"
    "length cs' = length (chans w)"
    "\<forall>a < length (chans w). if a \<in> snd ` set (clients (rl w)) then trySend (chans w ! a) = Inr (cs' ! a)
        else cs' ! a = chans w ! a"
    by auto
  have each: "chclosed (cs' ! a) = chclosed (chans w ! a) \<and> cap (cs' ! a) = 1 \<and> pending (cs' ! a) \<le> 1"
    if a: "a < length (chans w)" for a
  proof (cases "a \<in> snd ` set (clients (rl w))")
    case True
    then have "trySend (chans w ! a) = Inr (cs' ! a)" using cs'(3) a by simp
    moreover have "\<not> chclosed (chans w ! a)" using p True by auto
    ultimately have "cs' ! a = (if pending (chans w ! a) < cap (chans w ! a)
        then (chans w ! a)\<lparr>pending := pending (chans w ! a) + 1\<rparr> else chans w ! a)"
      by (simp add: trySend_open)
    then show ?thesis using wf_cap[OF assms a] by auto
  next
    case False
    then have "cs' ! a = chans w ! a" using cs'(3) a by simp
    then show ?thesis using wf_cap[OF assms a] by simp
  qed
  have "wf (w\<lparr>chans := cs'\<rparr>)"
    unfolding wf_def
  proof (intro conjI)
    show "closed (rl (w\<lparr>chans := cs'\<rparr>)) \<longrightarrow> clients (rl (w\<lparr>chans := cs'\<rparr>)) = []" using False by simp
    show "distinct (map fst (clients (rl (w\<lparr>chans := cs'\<rparr>))))" using assms by (simp add: wf_def)
    show "distinct (map snd (clients (rl (w\<lparr>chans := cs'\<rparr>))))" using d by simp
    show "\<forall>ch\<in>snd ` set (clients (rl (w\<lparr>chans := cs'\<rparr>))).
       ch < length (chans (w\<lparr>chans := cs'\<rparr>)) \<and> \<not> chclosed (chans (w\<lparr>chans := cs'\<rparr>) ! ch)"
      using p each cs'(2) by simp
    show "\<forall>c\<in>set (chans (w\<lparr>chans := cs'\<rparr>)). cap c = 1 \<and> pending c \<le> 1"
      using each cs'(2) by (auto simp: in_set_conv_nth)
  qed
  then show ?thesis using False cs' by (intro exI[of _ cs']) (simp add: Notify_def)
qed

lemma closeAll_ok:
  "distinct (map snd es) \<Longrightarrow> \<forall>a \<in> snd ` set es. a < length cs \<and> \<not> chclosed (cs ! a) \<Longrightarrow>
   \<exists>m' cs'. closeAll es m cs = Inr (m', cs') \<and> length cs' = length cs \<and>
     fst ` set m' \<subseteq> fst ` set m - fst ` set es \<and>
     (\<forall>a < length cs. cs' ! a = (if a \<in> snd ` set es then (cs ! a)\<lparr>chclosed := True\<rparr> else cs ! a))"
proof (induction es arbitrary: cs m)
  case Nil
  then show ?case by simp
next
  case (Cons e es)
  obtain i ch where e: "e = (i, ch)" by (cases e)
  have ch: "ch < length cs" "\<not> chclosed (cs ! ch)" using Cons.prems(2) e by auto
  define c where "c = (cs ! ch)\<lparr>chclosed := True\<rparr>"
  have cl: "closeChan (cs ! ch) = Inr c" using ch(2) by (simp add: closeChan_def c_def)
  have nin: "ch \<notin> snd ` set es" using Cons.prems(1) e by force
  have d: "distinct (map snd es)" using Cons.prems(1) by simp
  have p: "\<forall>a \<in> snd ` set es. a < length (cs[ch := c]) \<and> \<not> chclosed (cs[ch := c] ! a)"
  proof
    fix a assume a: "a \<in> snd ` set es"
    then have "a \<noteq> ch" using nin by blast
    then show "a < length (cs[ch := c]) \<and> \<not> chclosed (cs[ch := c] ! a)"
      using Cons.prems(2) a by auto
  qed
  from Cons.IH[OF d p, of "AList.delete i m"] obtain m' cs' where r:
    "closeAll es (AList.delete i m) (cs[ch := c]) = Inr (m', cs')"
    "length cs' = length cs"
    "fst ` set m' \<subseteq> fst ` set (AList.delete i m) - fst ` set es"
    "\<forall>a < length cs. cs' ! a = (if a \<in> snd ` set es then (cs[ch := c] ! a)\<lparr>chclosed := True\<rparr> else cs[ch := c] ! a)"
    by auto
  have k: "fst ` set m' \<subseteq> fst ` set m - fst ` set (e # es)"
  proof
    fix x assume "x \<in> fst ` set m'"
    then have x: "x \<in> fst ` set (AList.delete i m)" "x \<notin> fst ` set es" using r(3) by auto
    then have "x \<in> fst ` set m" using AList.dom_delete_subset[of i m] by blast
    moreover have "x \<noteq> i" using x(1) AList.delete_notin_dom[of i m] by blast
    ultimately show "x \<in> fst ` set m - fst ` set (e # es)" using x(2) e by simp
  qed
  have v: "\<forall>a < length cs. cs' ! a = (if a \<in> snd ` set (e # es) then (cs ! a)\<lparr>chclosed := True\<rparr> else cs ! a)"
  proof (intro allI impI)
    fix a assume a: "a < length cs"
    show "cs' ! a = (if a \<in> snd ` set (e # es) then (cs ! a)\<lparr>chclosed := True\<rparr> else cs ! a)"
    proof (cases "a = ch")
      case True
      then show ?thesis using r(4) a nin ch(1) e by (simp add: c_def)
    next
      case False
      have "cs' ! a = (if a \<in> snd ` set es then (cs[ch := c] ! a)\<lparr>chclosed := True\<rparr> else cs[ch := c] ! a)"
        using r(4) a by blast
      then show ?thesis using False e by simp
    qed
  qed
  show ?case using r(1,2) k v cl e by simp
qed

lemma Close_ok:
  assumes "wf w"
  shows "\<exists>cs'. Close w = Inr (w\<lparr>ctxs := (case watchCancel (rl w) of None \<Rightarrow> ctxs w | Some c \<Rightarrow> (ctxs w)[c := True]),
                                 rl := (rl w)\<lparr>closed := True, clients := []\<rparr>, chans := cs'\<rparr>) \<and>
      length cs' = length (chans w) \<and>
      (\<forall>a < length (chans w). cs' ! a =
          (if a \<in> snd ` set (clients (rl w)) then (chans w ! a)\<lparr>chclosed := True\<rparr> else chans w ! a))"
proof -
  define w1 where "w1 = (case watchCancel (rl w) of None \<Rightarrow> w | Some c \<Rightarrow> w\<lparr>ctxs := (ctxs w)[c := True]\<rparr>)"
  have w1: "rl w1 = rl w" "chans w1 = chans w"
    "w1 = w\<lparr>ctxs := (case watchCancel (rl w) of None \<Rightarrow> ctxs w | Some c \<Rightarrow> (ctxs w)[c := True])\<rparr>"
    by (simp_all add: w1_def split: option.splits)
  show ?thesis
  proof (cases "closed (rl w)")
    case True
    then have e: "clients (rl w) = []" using assms by (simp add: wf_def)
    have "(rl w)\<lparr>closed := True, clients := []\<rparr> = rl w" using True e by simp
    then show ?thesis using True e w1
      by (intro exI[of _ "chans w"]) (simp add: Close_def flip: w1_def)
  next
    case False
    have p: "\<forall>a \<in> snd ` set (clients (rl w)). a < length (chans w) \<and> \<not> chclosed (chans w ! a)"
      using assms by (simp add: wf_def)
    have d: "distinct (map snd (clients (rl w)))" using assms by (simp add: wf_def)
    from closeAll_ok[OF d p, of "clients (rl w)"] obtain m' cs' where r:
      "closeAll (clients (rl w)) (clients (rl w)) (chans w) = Inr (m', cs')"
      "length cs' = length (chans w)"
      "fst ` set m' \<subseteq> fst ` set (clients (rl w)) - fst ` set (clients (rl w))"
      "\<forall>a < length (chans w). cs' ! a =
          (if a \<in> snd ` set (clients (rl w)) then (chans w ! a)\<lparr>chclosed := True\<rparr> else chans w ! a)"
      by auto
    have "m' = []" using r(3) by simp
    then show ?thesis using False r w1
      by (intro exI[of _ cs']) (simp add: Close_def flip: w1_def)
  qed
qed

lemma Close_wf:
  assumes "wf w" "Close w = Inr w'"
  shows "wf w'"
proof -
  from Close_ok[OF assms(1)] assms(2) obtain cs' where r:
    "w' = w\<lparr>ctxs := (case watchCancel (rl w) of None \<Rightarrow> ctxs w | Some c \<Rightarrow> (ctxs w)[c := True]),
            rl := (rl w)\<lparr>closed := True, clients := []\<rparr>, chans := cs'\<rparr>"
    "length cs' = length (chans w)"
    "\<forall>a < length (chans w). cs' ! a =
          (if a \<in> snd ` set (clients (rl w)) then (chans w ! a)\<lparr>chclosed := True\<rparr> else chans w ! a)"
    by auto
  have "cap c = 1 \<and> pending c \<le> 1" if "c \<in> set cs'" for c
  proof -
    from that obtain a where a: "a < length cs'" "c = cs' ! a" by (auto simp: in_set_conv_nth)
    then show ?thesis using r(2,3) wf_cap[OF assms(1), of a] by auto
  qed
  then show ?thesis using r(1) by (simp add: wf_def)
qed

lemma Close_idem: "Close w = Inr w' \<Longrightarrow> Close w' = Inr w'"
  by (auto simp: Close_def Let_def split: option.splits if_splits sum.splits prod.splits)

lemma wf_cong:
  "closed (rl w') = closed (rl w) \<Longrightarrow> clients (rl w') = clients (rl w) \<Longrightarrow> chans w' = chans w \<Longrightarrow>
   wf w' = wf w"
  by (simp add: wf_def)

lemma wf_logs [simp]: "wf (w\<lparr>logs := l\<rparr>) = wf w"
  by (simp add: wf_def)

lemma wf_ctxs [simp]: "wf (w\<lparr>ctxs := l\<rparr>) = wf w"
  by (simp add: wf_def)

lemma wf_onces [simp]: "wf (w\<lparr>onces := l\<rparr>) = wf w"
  by (simp add: wf_def)

lemma wf_enabled [simp]: "wf (w\<lparr>rl := (rl w)\<lparr>enabled := b\<rparr>\<rparr>) = wf w"
  by (simp add: wf_def)

lemma wf_watchCancel [simp]: "wf (w\<lparr>rl := (rl w)\<lparr>watchCancel := c\<rparr>\<rparr>) = wf w"
  by (simp add: wf_def)

lemma Notify_wf: "wf w \<Longrightarrow> Notify w = Inr w' \<Longrightarrow> wf w'"
  using Notify_ok[of w] by auto

lemma Notify_total: "wf w \<Longrightarrow> \<exists>w'. Notify w = Inr w'"
  using Notify_ok[of w] by auto

lemma tryRecv_wf:
  assumes "wf w"
  shows "wf (w\<lparr>chans := (chans w)[ch := snd (tryRecv (chans w ! ch))]\<rparr>)"
proof (cases "ch < length (chans w)")
  case False
  then show ?thesis using assms by (simp add: list_update_beyond)
next
  case True
  let ?c = "snd (tryRecv (chans w ! ch))"
  have c: "chclosed ?c = chclosed (chans w ! ch)" "cap ?c = 1" "pending ?c \<le> 1"
    using wf_cap[OF assms True] by (auto simp: tryRecv_def)
  have v: "\<forall>a \<in> snd ` set (clients (rl w)). a < length (chans w) \<and> \<not> chclosed ((chans w)[ch := ?c] ! a)"
  proof
    fix a assume "a \<in> snd ` set (clients (rl w))"
    then have "a < length (chans w) \<and> \<not> chclosed (chans w ! a)" using assms by (auto simp: wf_def)
    then show "a < length (chans w) \<and> \<not> chclosed ((chans w)[ch := ?c] ! a)"
      using c(1) by (cases "a = ch") simp_all
  qed
  have k: "\<forall>c \<in> set ((chans w)[ch := ?c]). cap c = 1 \<and> pending c \<le> 1"
  proof
    fix x assume "x \<in> set ((chans w)[ch := ?c])"
    then have "x \<in> insert ?c (set (chans w))" using set_update_subset_insert by fastforce
    then show "cap x = 1 \<and> pending x \<le> 1" using c assms by (auto simp: wf_def)
  qed
  show ?thesis using assms v k by (simp add: wf_def)
qed

lemma logError_wf: "wf w \<Longrightarrow> logError msg e w = Inr w' \<Longrightarrow> wf w'"
  by (auto simp: logError_def split: option.splits)

lemma Start_wf: "wf w \<Longrightarrow> wf (snd (Start w))"
  by (simp add: Start_def Let_def wf_def)

lemma watcherBegin_wf: "wf w \<Longrightarrow> watcherBegin sha1 dir c w = Inr (wt, w') \<Longrightarrow> wf w'"
  by (auto simp: watcherBegin_def split: prod.splits option.splits sum.splits dest: logError_wf)

lemma watcherSelect_wf: "wf w \<Longrightarrow> watcherSelect sha1 sel wt w = Inr (wt', w') \<Longrightarrow> wf w'"
  by (auto simp: watcherSelect_def split: prod.splits option.splits sum.splits wsel.splits if_splits
      dest: logError_wf Notify_wf)

lemma step_wf:
  assumes "wf (wld s)" "step sha1 x s = Inr s'"
  shows "wf (wld s')"
proof (cases x)
  case OpSubscribe
  then show ?thesis using assms subscribe_wf[of "wld s"] by (auto split: prod.splits)
next
  case (OpCancel k)
  then show ?thesis using assms runCancel_wf[of "wld s" "fst (subs s ! k)"]
    by (auto split: if_splits sum.splits)
next
  case OpNotify
  then show ?thesis using assms Notify_wf[of "wld s"] by (auto split: sum.splits)
next
  case OpClose
  then show ?thesis using assms Close_wf[of "wld s"] by (auto split: sum.splits)
next
  case (OpSetEnabled b)
  then show ?thesis using assms by (auto simp: SetEnabled_def)
next
  case (OpRecv k)
  then show ?thesis using assms tryRecv_wf[of "wld s"] by (auto split: if_splits option.splits)
next
  case (OpStart dir)
  then show ?thesis using assms Start_wf[of "wld s"]
    by (auto split: prod.splits sum.splits dest: watcherBegin_wf)
next
  case (OpWatch k sel)
  then show ?thesis using assms
    by (auto split: if_splits prod.splits sum.splits dest: watcherSelect_wf)
qed

lemma run_wf: "wf (wld s) \<Longrightarrow> run sha1 xs s = Inr s' \<Longrightarrow> wf (wld s')"
proof (induction xs arbitrary: s)
  case Nil
  then show ?case by simp
next
  case (Cons x xs)
  then show ?case by (auto split: sum.splits dest: step_wf)
qed

lemma boot_wf: "run sha1 xs (boot config) = Inr s \<Longrightarrow> wf (wld s)"
  using run_wf[of "boot config" sha1 xs s] by (simp add: boot_def wf_newWorld)

subsection \<open>Broadcast, shutdown and late subscribers\<close>


lemma Notify_pending:
  assumes "wf w" "(cid, ch) \<in> set (clients (rl w))"
  shows "\<exists>w1. Notify w = Inr w1 \<and> wf w1 \<and> rl w1 = rl w \<and>
           chans w1 ! ch = (if pending (chans w ! ch) = 0 then (chans w ! ch)\<lparr>pending := 1\<rparr> else chans w ! ch) \<and>
           pending (chans w1 ! ch) = 1"
proof -
  from Notify_ok[OF assms(1)] obtain cs' where r:
    "Notify w = Inr (w\<lparr>chans := cs'\<rparr>)" "wf (w\<lparr>chans := cs'\<rparr>)" "length cs' = length (chans w)"
    "\<forall>a < length (chans w).
         if a \<in> snd ` set (clients (rl w)) then trySend (chans w ! a) = Inr (cs' ! a)
         else cs' ! a = chans w ! a"
    by blast
  have ch: "ch < length (chans w)" "\<not> chclosed (chans w ! ch)" using wf_chan[OF assms] by auto
  have mem: "ch \<in> snd ` set (clients (rl w))" using assms(2) by force
  have "trySend (chans w ! ch) = Inr (cs' ! ch)" using r(4) ch(1) mem by auto
  then have e: "cs' ! ch = (if pending (chans w ! ch) < cap (chans w ! ch)
      then (chans w ! ch)\<lparr>pending := pending (chans w ! ch) + 1\<rparr> else chans w ! ch)"
    using ch(2) by (simp add: trySend_open)
  have c: "cap (chans w ! ch) = 1" "pending (chans w ! ch) \<le> 1" using wf_cap[OF assms(1) ch(1)] by auto
  have "cs' ! ch = (if pending (chans w ! ch) = 0 then (chans w ! ch)\<lparr>pending := 1\<rparr> else chans w ! ch)"
    using e c by auto
  moreover have "pending (cs' ! ch) = 1" using e c by auto
  ultimately show ?thesis using r(1,2) by (intro exI[of _ "w\<lparr>chans := cs'\<rparr>"]) simp
qed

lemma NotifyTimes_pending:
  assumes "wf w" "(cid, ch) \<in> set (clients (rl w))" "0 < n"
  shows "\<exists>wn. NotifyTimes n w = Inr wn \<and> pending (chans wn ! ch) = 1"
  using assms
proof (induction n arbitrary: w)
  case 0
  then show ?case by simp
next
  case (Suc n)
  from Notify_pending[OF Suc.prems(1,2)] obtain w1 where w1:
    "Notify w = Inr w1" "wf w1" "rl w1 = rl w" "pending (chans w1 ! ch) = 1" by blast
  show ?case
  proof (cases n)
    case 0
    then show ?thesis using w1 by simp
  next
    case (Suc m)
    then have "\<exists>wn. NotifyTimes n w1 = Inr wn \<and> pending (chans wn ! ch) = 1"
      using Suc.IH[of w1] w1 Suc.prems(2) by simp
    then show ?thesis using w1(1) by simp
  qed
qed

text \<open>
  Claim C2. In every state a program can reach, for every subscriber in the map,
  \<^verbatim>\<open>Notify\<close> returns (it never blocks and never panics); it leaves a token in the
  subscriber's one-slot channel when the slot was empty and leaves the channel as it was
  when a token was pending; and after any number \<open>n > 0\<close> of calls in a row, with no
  receive in between, exactly one token is pending.
\<close>

theorem Notify_coalesces:
  assumes "run sha1 ops (boot config) = Inr s" and "(cid, ch) \<in> set (clients (rl (wld s)))"
  shows "(\<exists>w1. Notify (wld s) = Inr w1 \<and>
            chans w1 ! ch =
              (if pending (chans (wld s) ! ch) = 0 then (chans (wld s) ! ch)\<lparr>pending := 1\<rparr>
               else chans (wld s) ! ch)) \<and>
         (\<forall>n > 0. \<exists>wn. NotifyTimes n (wld s) = Inr wn \<and> pending (chans wn ! ch) = 1)"
proof -
  have w: "wf (wld s)" using assms(1) by (rule boot_wf)
  show ?thesis using Notify_pending[OF w assms(2)] NotifyTimes_pending[OF w assms(2)] by blast
qed

lemmas ev = boot_def newWorld_def New_def subscribe_def Let_def makeChan_def Notify_def trySend_def
  closeChan_def Close_def tryRecv_def SetEnabled_def Start_def

theorem Notify_coalesces_witness:
  "\<exists>s wn. run (\<lambda>b. 0) [OpSubscribe] (boot \<lparr>cfgLogger = Some (), cfgRoute = ''/dev/reload'', cfgEnabled = True, cfgMaxAge = 0\<rparr>) = Inr s \<and>
     (0, 0) \<in> set (clients (rl (wld s))) \<and>
     NotifyTimes 3 (wld s) = Inr wn \<and> pending (chans wn ! 0) = 1"
proof -
  let ?cfg = "\<lparr>cfgLogger = Some (), cfgRoute = ''/dev/reload'', cfgEnabled = True, cfgMaxAge = 0\<rparr>"
  obtain s where s: "run (\<lambda>b. 0) [OpSubscribe] (boot ?cfg) = Inr s" by (simp add: ev)
  then have m: "(0, 0) \<in> set (clients (rl (wld s)))" by (auto simp: ev)
  from Notify_coalesces[OF s m] s m show ?thesis by (metis zero_less_numeral)
qed

lemma subscribe_closed: "closed (rl w) \<Longrightarrow> subscribe w = ((NoopFn, None), w)"
  by (simp add: subscribe_def)


lemma subscribe_closed_times:
  "closed (rl (wld s)) \<Longrightarrow>
   run sha1 (replicate n OpSubscribe) s = Inr (s\<lparr>subs := subs s @ replicate n (NoopFn, None)\<rparr>)"
proof (induction n arbitrary: s)
  case 0
  then show ?case by simp
next
  case (Suc n)
  have "step sha1 OpSubscribe s = Inr (s\<lparr>subs := subs s @ [(NoopFn, None)]\<rparr>)"
    using Suc.prems by (simp add: subscribe_closed)
  moreover have "closed (rl (wld (s\<lparr>subs := subs s @ [(NoopFn, None)]\<rparr>)))" using Suc.prems by simp
  ultimately show ?case using Suc.IH[of "s\<lparr>subs := subs s @ [(NoopFn, None)]\<rparr>"]
    by (simp add: replicate_app_Cons_same)
qed

text \<open>
  Claim C3. In every reachable state in which \<^verbatim>\<open>closed\<close> is true the map of clients is
  empty; \<^verbatim>\<open>subscribe\<close> returns the \<^verbatim>\<open>nil\<close> channel and the function that does nothing, and
  leaves the state as it was, so that it does the same however often it is called.
\<close>

theorem closed_has_no_clients:
  assumes "run sha1 ops (boot config) = Inr s" and "closed (rl (wld s))"
  shows "clients (rl (wld s)) = [] \<and>
         subscribe (wld s) = ((NoopFn, None), wld s) \<and>
         runCancel NoopFn (wld s) = Inr (wld s) \<and>
         (\<forall>n. run sha1 (replicate n OpSubscribe) s = Inr (s\<lparr>subs := subs s @ replicate n (NoopFn, None)\<rparr>))"
proof -
  have "wf (wld s)" using assms(1) by (rule boot_wf)
  then have "clients (rl (wld s)) = []" using assms(2) by (simp add: wf_def)
  then show ?thesis using assms(2) subscribe_closed_times[OF assms(2)] by (simp add: subscribe_closed)
qed

theorem closed_has_no_clients_witness:
  "\<exists>s. run (\<lambda>b. 0) [OpSubscribe, OpSubscribe, OpClose]
          (boot \<lparr>cfgLogger = Some (), cfgRoute = ''/dev/reload'', cfgEnabled = True, cfgMaxAge = 0\<rparr>) = Inr s \<and>
     closed (rl (wld s)) \<and> clients (rl (wld s)) = [] \<and>
     subscribe (wld s) = ((NoopFn, None), wld s) \<and>
     run (\<lambda>b. 0) (replicate 2 OpSubscribe) s = Inr (s\<lparr>subs := subs s @ replicate 2 (NoopFn, None)\<rparr>)"
proof -
  let ?cfg = "\<lparr>cfgLogger = Some (), cfgRoute = ''/dev/reload'', cfgEnabled = True, cfgMaxAge = 0\<rparr>"
  obtain s where s: "run (\<lambda>b. 0) [OpSubscribe, OpSubscribe, OpClose] (boot ?cfg) = Inr s" by (simp add: ev)
  then have c: "closed (rl (wld s))" by (auto simp: ev)
  from closed_has_no_clients[OF s c] s c show ?thesis by blast
qed

text \<open>
  Claim C4. From every reachable state \<^verbatim>\<open>Close\<close> returns without a panic, in a state that
  is closed, whose map is empty and in which the channel of every former client is
  closed; a second \<^verbatim>\<open>Close\<close> returns that same state, so it closes no channel again.
\<close>

theorem Close_idempotent:
  assumes "run sha1 ops (boot config) = Inr s"
  shows "\<exists>w1. Close (wld s) = Inr w1 \<and> closed (rl w1) \<and> clients (rl w1) = [] \<and>
           (\<forall>ch \<in> snd ` set (clients (rl (wld s))). chclosed (chans w1 ! ch)) \<and>
           Close w1 = Inr w1"
proof -
  have w: "wf (wld s)" using assms by (rule boot_wf)
  from Close_ok[OF w] obtain cs' where r:
    "Close (wld s) = Inr ((wld s)\<lparr>ctxs := (case watchCancel (rl (wld s)) of None \<Rightarrow> ctxs (wld s)
                                        | Some c \<Rightarrow> (ctxs (wld s))[c := True]),
                                 rl := (rl (wld s))\<lparr>closed := True, clients := []\<rparr>, chans := cs'\<rparr>)"
    "length cs' = length (chans (wld s))"
    "\<forall>a < length (chans (wld s)). cs' ! a =
          (if a \<in> snd ` set (clients (rl (wld s))) then (chans (wld s) ! a)\<lparr>chclosed := True\<rparr>
           else chans (wld s) ! a)"
    by blast
  have "chclosed (cs' ! ch)" if "ch \<in> snd ` set (clients (rl (wld s)))" for ch
  proof -
    have "ch < length (chans (wld s))" using w that by (auto simp: wf_def)
    then show ?thesis using r(3) that by simp
  qed
  then show ?thesis using r(1) Close_idem[OF r(1)] by simp
qed

theorem Close_idempotent_witness:
  "\<exists>s w1. run (\<lambda>b. 0) [OpSubscribe, OpSubscribe, OpCancel 0]
          (boot \<lparr>cfgLogger = Some (), cfgRoute = ''/dev/reload'', cfgEnabled = True, cfgMaxAge = 0\<rparr>) = Inr s \<and>
     clients (rl (wld s)) = [(1, 1)] \<and>
     Close (wld s) = Inr w1 \<and> closed (rl w1) \<and> clients (rl w1) = [] \<and> chclosed (chans w1 ! 1) \<and>
     Close w1 = Inr w1"
proof -
  let ?cfg = "\<lparr>cfgLogger = Some (), cfgRoute = ''/dev/reload'', cfgEnabled = True, cfgMaxAge = 0\<rparr>"
  obtain s where s: "run (\<lambda>b. 0) [OpSubscribe, OpSubscribe, OpCancel 0] (boot ?cfg) = Inr s" by (simp add: ev)
  then have c: "clients (rl (wld s)) = [(1, 1)]" by (auto simp: ev)
  from Close_idempotent[OF s] s c show ?thesis by auto
qed

text \<open>
  Claim C8. From every reachable state \<^verbatim>\<open>Notify\<close> changes no channel but those in the map
  when it runs, and a \<^verbatim>\<open>subscribe\<close> that follows it makes a channel that was not in that
  map and holds no token.
\<close>

theorem late_joiner_channel_empty:
  assumes "run sha1 ops (boot config) = Inr s"
  shows "\<exists>w1. Notify (wld s) = Inr w1 \<and> length (chans w1) = length (chans (wld s)) \<and>
           (\<forall>a < length (chans (wld s)).
              a \<notin> snd ` set (clients (rl (wld s))) \<longrightarrow> chans w1 ! a = chans (wld s) ! a) \<and>
           (\<not> closed (rl (wld s)) \<longrightarrow>
              (\<exists>f w2. subscribe w1 = ((f, Some (length (chans w1))), w2) \<and>
                 length (chans w1) \<notin> snd ` set (clients (rl (wld s))) \<and>
                 chans w2 ! length (chans w1) = makeChan 1 \<and>
                 pending (chans w2 ! length (chans w1)) = 0))"
proof -
  have w: "wf (wld s)" using assms by (rule boot_wf)
  from Notify_ok[OF w] obtain cs' where r:
    "Notify (wld s) = Inr ((wld s)\<lparr>chans := cs'\<rparr>)" "length cs' = length (chans (wld s))"
    "\<forall>a < length (chans (wld s)).
         if a \<in> snd ` set (clients (rl (wld s))) then trySend (chans (wld s) ! a) = Inr (cs' ! a)
         else cs' ! a = chans (wld s) ! a"
    by blast
  have u: "\<forall>a < length (chans (wld s)).
              a \<notin> snd ` set (clients (rl (wld s))) \<longrightarrow> cs' ! a = chans (wld s) ! a"
    using r(3) by (auto split: if_splits)
  have fresh: "length cs' \<notin> snd ` set (clients (rl (wld s)))" using w r(2) by (auto simp: wf_def)
  have sub: "\<not> closed (rl (wld s)) \<Longrightarrow>
      \<exists>f w2. subscribe ((wld s)\<lparr>chans := cs'\<rparr>) = ((f, Some (length cs')), w2) \<and>
        chans w2 ! length cs' = makeChan 1 \<and> pending (chans w2 ! length cs') = 0"
    by (simp add: subscribe_def Let_def makeChan_def)
  show ?thesis using r(1,2) u fresh sub by (intro exI[of _ "(wld s)\<lparr>chans := cs'\<rparr>"]) simp
qed

theorem late_joiner_channel_empty_witness:
  "\<exists>s w1 f w2. run (\<lambda>b. 0) [OpSubscribe]
          (boot \<lparr>cfgLogger = Some (), cfgRoute = ''/dev/reload'', cfgEnabled = True, cfgMaxAge = 0\<rparr>) = Inr s \<and>
     \<not> closed (rl (wld s)) \<and>
     Notify (wld s) = Inr w1 \<and> pending (chans w1 ! 0) = 1 \<and>
     subscribe w1 = ((f, Some 1), w2) \<and> pending (chans w2 ! 1) = 0"
proof -
  let ?cfg = "\<lparr>cfgLogger = Some (), cfgRoute = ''/dev/reload'', cfgEnabled = True, cfgMaxAge = 0\<rparr>"
  obtain s where s: "run (\<lambda>b. 0) [OpSubscribe] (boot ?cfg) = Inr s" by (simp add: ev)
  then have c: "\<not> closed (rl (wld s))" "length (chans (wld s)) = 1" by (auto simp: ev)
  from late_joiner_channel_empty[OF s] obtain w1 where n:
    "Notify (wld s) = Inr w1" "length (chans w1) = length (chans (wld s))"
    "\<not> closed (rl (wld s)) \<longrightarrow>
              (\<exists>f w2. subscribe w1 = ((f, Some (length (chans w1))), w2) \<and>
                 length (chans w1) \<notin> snd ` set (clients (rl (wld s))) \<and>
                 chans w2 ! length (chans w1) = makeChan 1 \<and>
                 pending (chans w2 ! length (chans w1)) = 0)"
    by blast
  then obtain f w2 where r: "subscribe w1 = ((f, Some (length (chans w1))), w2)"
    "pending (chans w2 ! length (chans w1)) = 0"
    using c(1) by blast
  have "pending (chans w1 ! 0) = 1" using n(1) s by (auto simp: ev)
  then show ?thesis using s c n(1,2) r by auto
qed

text \<open>
  Claim C10. \<^verbatim>\<open>Start\<close> stores the cancel function of its new context, whatever was stored
  before; \<^verbatim>\<open>Close\<close> cancels the stored context when there is one and nothing else; on a
  \<^verbatim>\<open>Reloader\<close> that was never started it cancels nothing and does not panic; and after
  two calls of \<^verbatim>\<open>Start\<close>, \<^verbatim>\<open>Close\<close> cancels the context of the second and leaves the
  context of the first as it was.
\<close>

theorem Start_overwrites_Close_cancels_stored:
  assumes "run sha1 ops (boot config) = Inr s"
  shows "watchCancel (rl (snd (Start (wld s)))) = Some (fst (Start (wld s))) \<and>
         fst (Start (wld s)) = length (ctxs (wld s)) \<and>
         (\<exists>w1. Close (wld s) = Inr w1 \<and>
            ctxs w1 = (case watchCancel (rl (wld s)) of
                         None \<Rightarrow> ctxs (wld s)
                       | Some c \<Rightarrow> (ctxs (wld s))[c := True])) \<and>
         (\<exists>w1. Close (newWorld config) = Inr w1 \<and> ctxs w1 = []) \<and>
         (\<exists>c1 w1 c2 w2 w3. Start (wld s) = (c1, w1) \<and> Start w1 = (c2, w2) \<and> Close w2 = Inr w3 \<and>
            c1 \<noteq> c2 \<and> ctxs w3 ! c2 \<and> \<not> ctxs w3 ! c1)"
proof -
  have w: "wf (wld s)" using assms by (rule boot_wf)
  have a: "watchCancel (rl (snd (Start (wld s)))) = Some (fst (Start (wld s)))"
    "fst (Start (wld s)) = length (ctxs (wld s))"
    by (simp_all add: Start_def Let_def)
  have b: "\<exists>w1. Close (wld s) = Inr w1 \<and>
            ctxs w1 = (case watchCancel (rl (wld s)) of
                         None \<Rightarrow> ctxs (wld s)
                       | Some c \<Rightarrow> (ctxs (wld s))[c := True])"
    using Close_ok[OF w] by auto
  have c: "\<exists>w1. Close (newWorld config) = Inr w1 \<and> ctxs w1 = []"
    by (simp add: Close_def newWorld_def New_def)
  obtain c1 w1 where s1: "Start (wld s) = (c1, w1)" by (cases "Start (wld s)")
  obtain c2 w2 where s2: "Start w1 = (c2, w2)" by (cases "Start w1")
  have w2: "wf w2" using Start_wf[OF w] s1 Start_wf[of w1] s2 by simp
  have f: "c1 = length (ctxs (wld s))" "c2 = Suc (length (ctxs (wld s)))"
    "ctxs w2 = ctxs (wld s) @ [False, False]" "watchCancel (rl w2) = Some c2"
    using s1 s2 by (auto simp: Start_def Let_def)
  from Close_ok[OF w2] obtain w3 where w3: "Close w2 = Inr w3"
    "ctxs w3 = (ctxs w2)[c2 := True]" using f(4) by auto
  have "c1 \<noteq> c2 \<and> ctxs w3 ! c2 \<and> \<not> ctxs w3 ! c1"
    using w3(2) f by (simp add: nth_append)
  then have d: "\<exists>c1 w1 c2 w2 w3. Start (wld s) = (c1, w1) \<and> Start w1 = (c2, w2) \<and> Close w2 = Inr w3 \<and>
            c1 \<noteq> c2 \<and> ctxs w3 ! c2 \<and> \<not> ctxs w3 ! c1"
    using s1 s2 w3(1) by blast
  show ?thesis using a b c d by blast
qed

theorem Start_overwrites_Close_cancels_stored_witness:
  "\<exists>s. run (\<lambda>b. 0) [OpStart (Root (Dir [])), OpStart (Root (Dir [])), OpClose, OpWatch 0 WDone, OpWatch 1 WDone]
          (boot \<lparr>cfgLogger = Some (), cfgRoute = ''/dev/reload'', cfgEnabled = True, cfgMaxAge = 0\<rparr>) = Inr s \<and>
     ctxs (wld s) = [False, True] \<and> map exited (watchers s) = [False, True] \<and>
     watchCancel (rl (snd (Start (wld s)))) = Some (fst (Start (wld s))) \<and>
     fst (Start (wld s)) = 2"
proof -
  let ?cfg = "\<lparr>cfgLogger = Some (), cfgRoute = ''/dev/reload'', cfgEnabled = True, cfgMaxAge = 0\<rparr>"
  obtain s where s: "run (\<lambda>b. 0) [OpStart (Root (Dir [])), OpStart (Root (Dir [])), OpClose, OpWatch 0 WDone, OpWatch 1 WDone] (boot ?cfg) = Inr s"
    by (simp add: ev watcherBegin_def watcherSelect_def directoryFingerprint_def WalkDir_def)
  then have c: "ctxs (wld s) = [False, True]" "map exited (watchers s) = [False, True]"
    by (auto simp: ev watcherBegin_def watcherSelect_def directoryFingerprint_def WalkDir_def)
  from Start_overwrites_Close_cancels_stored[OF s] s c show ?thesis by auto
qed

subsection \<open>Subscriptions: every channel is closed once\<close>



lemma issued_memD: "(once, cid) \<in> set (issued xs) \<Longrightarrow> \<exists>c. (OnceFn once cid, c) \<in> set xs"
  by (induction xs rule: issued.induct) auto






lemma subs_ok_watchers [simp]: "subs_ok (s\<lparr>watchers := x\<rparr>) = subs_ok s"
  by (simp add: subs_ok_def)























lemma logError_panic: "logError msg e w = Inl p \<Longrightarrow> p = NilDereference \<and> logger (rl w) = None"
  by (auto simp: logError_def split: option.splits)

lemma watcherBegin_panic:
  "watcherBegin sha1 dir c w = Inl p \<Longrightarrow> p = NilDereference \<and> logger (rl w) = None"
  by (auto simp: watcherBegin_def split: prod.splits option.splits sum.splits dest: logError_panic)

lemma watcherSelect_panic:
  assumes "wf w" "watcherSelect sha1 sel wt w = Inl p"
  shows "p = NilDereference \<and> logger (rl w) = None"
proof -
  obtain w1 where n: "Notify w = Inr w1" using Notify_total[OF assms(1)] by blast
  show ?thesis using assms(2) n
    by (auto simp: watcherSelect_def split: if_splits wsel.splits prod.splits option.splits sum.splits
        dest: logError_panic)
qed

lemma step_panic:
  assumes "wf (wld s)" "step sha1 x s = Inl p"
  shows "p = NilDereference \<and> logger (rl (wld s)) = None"
proof (cases x)
  case OpSubscribe
  then show ?thesis using assms(2) by (auto split: prod.splits)
next
  case (OpCancel k)
  then show ?thesis using assms(2) runCancel_wf[OF assms(1), of "fst (subs s ! k)"]
    by (auto split: if_splits sum.splits)
next
  case OpNotify
  then show ?thesis using assms(2) Notify_total[OF assms(1)] by (auto split: sum.splits)
next
  case OpClose
  then show ?thesis using assms(2) Close_ok[OF assms(1)] by (auto split: sum.splits)
next
  case (OpSetEnabled b)
  then show ?thesis using assms(2) by simp
next
  case (OpRecv k)
  then show ?thesis using assms(2) by (auto split: if_splits option.splits)
next
  case (OpStart dir)
  have "logger (rl (snd (Start (wld s)))) = logger (rl (wld s))" by (simp add: Start_def Let_def)
  then show ?thesis using assms(2) OpStart
    by (auto split: prod.splits sum.splits dest!: watcherBegin_panic)
next
  case (OpWatch k sel)
  then show ?thesis using assms
    by (auto split: if_splits prod.splits sum.splits dest: watcherSelect_panic)
qed











subsection \<open>The watcher and failed reads\<close>

lemma watchers_ok_world:
  assumes "watchers_ok config s" "logger (rl w') = logger (rl (wld s))"
    and "length (ctxs (wld s)) \<le> length (ctxs w')"
    and "\<forall>c < length (ctxs (wld s)). ctxs (wld s) ! c \<longrightarrow> ctxs w' ! c"
  shows "watchers_ok config (s\<lparr>wld := w'\<rparr>)"
  using assms unfolding watchers_ok_def by auto

lemma watchers_ok_subs [simp]: "watchers_ok config (s\<lparr>subs := x\<rparr>) = watchers_ok config s"
  by (simp add: watchers_ok_def)

lemma subscribe_frame:
  "subscribe w = (sub, w1) \<Longrightarrow> logger (rl w1) = logger (rl w) \<and> ctxs w1 = ctxs w \<and> maxAge (rl w1) = maxAge (rl w)"
  by (auto simp: subscribe_def Let_def split: if_splits)

lemma runCancel_frame:
  "runCancel f w = Inr w1 \<Longrightarrow> logger (rl w1) = logger (rl w) \<and> ctxs w1 = ctxs w \<and> maxAge (rl w1) = maxAge (rl w)"
  by (cases f) (auto simp: Let_def split: if_splits option.splits sum.splits)

lemma Close_frame:
  "Close w = Inr w1 \<Longrightarrow> logger (rl w1) = logger (rl w) \<and> maxAge (rl w1) = maxAge (rl w) \<and>
     ctxs w1 = (case watchCancel (rl w) of None \<Rightarrow> ctxs w | Some c \<Rightarrow> (ctxs w)[c := True])"
  by (auto simp: Close_def Let_def split: if_splits option.splits sum.splits prod.splits)

lemma Notify_same:
  "Notify w = Inr w1 \<Longrightarrow> rl w1 = rl w \<and> ctxs w1 = ctxs w \<and> onces w1 = onces w \<and> logs w1 = logs w"
  by (auto simp: Notify_def split: if_splits sum.splits)

lemma logError_same:
  "logError msg e w = Inr w1 \<Longrightarrow> rl w1 = rl w \<and> ctxs w1 = ctxs w \<and> chans w1 = chans w \<and> onces w1 = onces w"
  by (auto simp: logError_def split: option.splits)

lemma watcherBegin_frame:
  "watcherBegin sha1 dir c w = Inr (wt, w1) \<Longrightarrow>
     rl w1 = rl w \<and> ctxs w1 = ctxs w \<and> chans w1 = chans w \<and> wctx wt = c \<and> \<not> exited wt \<and>
     lastFingerprint wt = fst (directoryFingerprint sha1 dir)"
  by (auto simp: watcherBegin_def split: prod.splits option.splits sum.splits dest: logError_same)

lemma watcherSelect_frame:
  "watcherSelect sha1 sel wt w = Inr (wt1, w1) \<Longrightarrow>
     rl w1 = rl w \<and> ctxs w1 = ctxs w \<and> wctx wt1 = wctx wt \<and>
     (exited wt1 \<longrightarrow> exited wt \<or> (sel = WDone \<and> ctxs w ! wctx wt))"
  by (auto simp: watcherSelect_def
      split: if_splits wsel.splits prod.splits option.splits sum.splits
      dest: logError_same Notify_same)

lemma nth_update_True: "c < length xs \<Longrightarrow> xs ! c \<Longrightarrow> xs[i := True] ! c"
  by (cases "i = c") simp_all

lemma step_watchers_ok:
  assumes "watchers_ok config s" "step sha1 x s = Inr s'"
  shows "watchers_ok config s'"
proof (cases x)
  case OpSubscribe
  obtain sub w1 where sw: "subscribe (wld s) = (sub, w1)" by (cases "subscribe (wld s)")
  then have "s' = s\<lparr>wld := w1, subs := subs s @ [sub]\<rparr>" using assms(2) OpSubscribe by simp
  moreover have "watchers_ok config (s\<lparr>wld := w1\<rparr>)"
    by (rule watchers_ok_world[OF assms(1)]) (simp_all add: subscribe_frame[OF sw])
  ultimately show ?thesis by simp
next
  case (OpCancel k)
  show ?thesis
  proof (cases "k < length (subs s)")
    case True
    then obtain w1 where r: "runCancel (fst (subs s ! k)) (wld s) = Inr w1" "s' = s\<lparr>wld := w1\<rparr>"
      using assms(2) OpCancel by (auto split: sum.splits)
    have "watchers_ok config (s\<lparr>wld := w1\<rparr>)"
      by (rule watchers_ok_world[OF assms(1)]) (simp_all add: runCancel_frame[OF r(1)])
    then show ?thesis using r(2) by simp
  next
    case False
    then show ?thesis using assms OpCancel by simp
  qed
next
  case OpNotify
  then obtain w1 where r: "Notify (wld s) = Inr w1" "s' = s\<lparr>wld := w1\<rparr>"
    using assms(2) by (auto split: sum.splits)
  have "watchers_ok config (s\<lparr>wld := w1\<rparr>)"
    by (rule watchers_ok_world[OF assms(1)]) (simp_all add: Notify_same[OF r(1)])
  then show ?thesis using r(2) by simp
next
  case OpClose
  then obtain w1 where r: "Close (wld s) = Inr w1" "s' = s\<lparr>wld := w1\<rparr>"
    using assms(2) by (auto split: sum.splits)
  have "watchers_ok config (s\<lparr>wld := w1\<rparr>)"
    by (rule watchers_ok_world[OF assms(1)])
       (auto simp: Close_frame[OF r(1)] nth_update_True split: option.splits)
  then show ?thesis using r(2) by simp
next
  case (OpSetEnabled b)
  then have r: "s' = s\<lparr>wld := SetEnabled b (wld s)\<rparr>" using assms(2) by simp
  have "watchers_ok config (s\<lparr>wld := SetEnabled b (wld s)\<rparr>)"
    by (rule watchers_ok_world[OF assms(1)]) (simp_all add: SetEnabled_def)
  then show ?thesis using r by simp
next
  case (OpRecv k)
  then have "s' = s \<or> (\<exists>cs. s' = s\<lparr>wld := (wld s)\<lparr>chans := cs\<rparr>\<rparr>)"
    using assms(2) by (auto split: if_splits option.splits)
  moreover have "watchers_ok config (s\<lparr>wld := (wld s)\<lparr>chans := cs\<rparr>\<rparr>)" for cs
    by (rule watchers_ok_world[OF assms(1)]) simp_all
  ultimately show ?thesis using assms(1) by auto
next
  case (OpStart dir)
  let ?c = "fst (Start (wld s))"
  let ?w1 = "snd (Start (wld s))"
  from OpStart obtain wt w2 where r: "watcherBegin sha1 dir ?c ?w1 = Inr (wt, w2)"
    "s' = s\<lparr>wld := w2, watchers := watchers s @ [wt]\<rparr>"
    using assms(2) by (auto split: prod.splits sum.splits)
  note f = watcherBegin_frame[OF r(1)]
  have st: "?c = length (ctxs (wld s))" "ctxs ?w1 = ctxs (wld s) @ [False]"
    "logger (rl ?w1) = logger (rl (wld s))"
    by (simp_all add: Start_def Let_def)
  have "watchers_ok config (s\<lparr>wld := w2\<rparr>)"
    by (rule watchers_ok_world[OF assms(1)]) (simp_all add: f st nth_append)
  then show ?thesis using r(2) f st unfolding watchers_ok_def by simp
next
  case (OpWatch k sel)
  show ?thesis
  proof (cases "k < length (watchers s)")
    case True
    then obtain wt w1 where r: "watcherSelect sha1 sel (watchers s ! k) (wld s) = Inr (wt, w1)"
      "s' = s\<lparr>wld := w1, watchers := (watchers s)[k := wt]\<rparr>"
      using assms(2) OpWatch by (auto split: prod.splits sum.splits)
    note f = watcherSelect_frame[OF r(1)]
    have old: "wctx (watchers s ! k) < length (ctxs (wld s))"
      "exited (watchers s ! k) \<longrightarrow> ctxs (wld s) ! wctx (watchers s ! k)"
      using assms(1) True unfolding watchers_ok_def by auto
    have new: "wctx wt < length (ctxs (wld s)) \<and> (exited wt \<longrightarrow> ctxs (wld s) ! wctx wt)"
      using f old by auto
    have "\<forall>x \<in> set ((watchers s)[k := wt]).
        wctx x < length (ctxs (wld s)) \<and> (exited x \<longrightarrow> ctxs (wld s) ! wctx x)"
    proof
      fix x assume "x \<in> set ((watchers s)[k := wt])"
      then have "x = wt \<or> x \<in> set (watchers s)" using set_update_subset_insert by fastforce
      then show "wctx x < length (ctxs (wld s)) \<and> (exited x \<longrightarrow> ctxs (wld s) ! wctx x)"
        using new assms(1) unfolding watchers_ok_def by auto
    qed
    then show ?thesis using r(2) f assms(1) unfolding watchers_ok_def by simp
  next
    case False
    then show ?thesis using assms OpWatch by simp
  qed
qed

lemma run_watchers_ok:
  "watchers_ok config s \<Longrightarrow> run sha1 xs s = Inr s' \<Longrightarrow> watchers_ok config s'"
proof (induction xs arbitrary: s)
  case Nil
  then show ?case by simp
next
  case (Cons x xs)
  then show ?case by (auto split: sum.splits dest: step_watchers_ok)
qed

lemma boot_watchers_ok: "run sha1 xs (boot config) = Inr s \<Longrightarrow> watchers_ok config s"
  by (rule run_watchers_ok[of config "boot config"])
     (simp_all add: watchers_ok_def boot_def newWorld_def New_def)

lemma fingerprint_error_empty:
  "snd (directoryFingerprint sha1 dir) = Some e \<Longrightarrow> directoryFingerprint sha1 dir = ([], Some e)"
  by (auto simp: directoryFingerprint_def split: prod.splits option.splits)

lemma fingerprint_ok_nonempty:
  "snd (directoryFingerprint sha1 dir) = None \<Longrightarrow> fst (directoryFingerprint sha1 dir) \<noteq> []"
  using fingerprint_length[of sha1 dir "fst (directoryFingerprint sha1 dir)"]
  by (cases "directoryFingerprint sha1 dir") auto

lemma watcherSelect_tick_exited:
  "watcherSelect sha1 (WTick dir) wt w = Inr (wt1, w1) \<Longrightarrow> exited wt1 = exited wt"
  by (auto simp: watcherSelect_def split: if_splits prod.splits option.splits sum.splits)

text \<open>
  Claim C6, for a \<^verbatim>\<open>Reloader\<close> that was given a logger. In every state such a program can
  reach: no step of any goroutine panics, whatever the directory reads return; a
  \<^verbatim>\<open>Start\<close> whose first read fails appends one message with the error to the log, starts
  the watcher with the empty string as its last fingerprint and sends nothing; a watcher
  whose last fingerprint is the empty string broadcasts on the first tick whose read
  succeeds, since a fingerprint is never empty, and stores it; a tick whose read fails
  appends one message with the error to the log (none once the watcher has returned) and
  changes neither the watchers, nor the channels, nor the \<^verbatim>\<open>Reloader\<close>; a watcher that has
  returned has a cancelled context; and a tick never makes a watcher return.
\<close>

theorem watcher_survives_read_errors:
  assumes "run sha1 ops (boot config) = Inr s" and "cfgLogger config = Some u"
  shows "(\<forall>x. \<exists>s'. step sha1 x s = Inr s') \<and>
         (\<forall>dir e. snd (directoryFingerprint sha1 dir) = Some e \<longrightarrow>
            (\<exists>s'. step sha1 (OpStart dir) s = Inr s' \<and>
               watchers s' = watchers s @
                 [\<lparr>wctx = length (ctxs (wld s)), lastFingerprint = [], exited = False\<rparr>] \<and>
               chans (wld s') = chans (wld s) \<and>
               logs (wld s') =
                 logs (wld s) @ [''dev reload watcher failed to read directory err='' @ e])) \<and>
         (\<forall>k dir. k < length (watchers s) \<and> \<not> exited (watchers s ! k) \<and>
              lastFingerprint (watchers s ! k) = [] \<and>
              snd (directoryFingerprint sha1 dir) = None \<longrightarrow>
            fst (directoryFingerprint sha1 dir) \<noteq> [] \<and>
            (\<exists>w1. Notify (wld s) = Inr w1 \<and>
               step sha1 (OpWatch k (WTick dir)) s =
                 Inr (s\<lparr>wld := w1,
                        watchers := (watchers s)[k := (watchers s ! k)
                          \<lparr>lastFingerprint := fst (directoryFingerprint sha1 dir)\<rparr>]\<rparr>))) \<and>
         (\<forall>k dir e. k < length (watchers s) \<and> snd (directoryFingerprint sha1 dir) = Some e \<longrightarrow>
            (\<exists>s'. step sha1 (OpWatch k (WTick dir)) s = Inr s' \<and>
               watchers s' = watchers s \<and> chans (wld s') = chans (wld s) \<and>
               rl (wld s') = rl (wld s) \<and>
               logs (wld s') =
                 (if exited (watchers s ! k) then logs (wld s)
                  else logs (wld s) @ [''dev reload watcher failed to scan directory err='' @ e]))) \<and>
         (\<forall>k < length (watchers s).
            exited (watchers s ! k) \<longrightarrow> ctxs (wld s) ! wctx (watchers s ! k)) \<and>
         (\<forall>k dir s'. k < length (watchers s) \<and> step sha1 (OpWatch k (WTick dir)) s = Inr s' \<longrightarrow>
            exited (watchers s' ! k) = exited (watchers s ! k))"
proof -
  let ?w = "wld s"
  have w: "wf ?w" using assms(1) by (rule boot_wf)
  have wo: "watchers_ok config s" using assms(1) by (rule boot_watchers_ok)
  then have lg: "logger (rl ?w) = Some u" using assms(2) by (simp add: watchers_ok_def)
  have a: "\<forall>x. \<exists>s'. step sha1 x s = Inr s'"
  proof
    fix x
    show "\<exists>s'. step sha1 x s = Inr s'"
    proof (cases "step sha1 x s")
      case (Inl p)
      then show ?thesis using step_panic[OF w Inl] lg by simp
    next
      case (Inr s')
      then show ?thesis by blast
    qed
  qed
  have b: "\<exists>s'. step sha1 (OpStart dir) s = Inr s' \<and>
               watchers s' = watchers s @
                 [\<lparr>wctx = length (ctxs ?w), lastFingerprint = [], exited = False\<rparr>] \<and>
               chans (wld s') = chans ?w \<and>
               logs (wld s') = logs ?w @ [''dev reload watcher failed to read directory err='' @ e]"
    if "snd (directoryFingerprint sha1 dir) = Some e" for dir e
    using fingerprint_error_empty[OF that] lg
    by (simp add: Start_def Let_def watcherBegin_def logError_def)
  have c: "fst (directoryFingerprint sha1 dir) \<noteq> [] \<and>
            (\<exists>w1. Notify ?w = Inr w1 \<and>
               step sha1 (OpWatch k (WTick dir)) s =
                 Inr (s\<lparr>wld := w1,
                        watchers := (watchers s)[k := (watchers s ! k)
                          \<lparr>lastFingerprint := fst (directoryFingerprint sha1 dir)\<rparr>]\<rparr>))"
    if h: "k < length (watchers s)" "\<not> exited (watchers s ! k)" "lastFingerprint (watchers s ! k) = []"
      "snd (directoryFingerprint sha1 dir) = None" for k dir
  proof -
    have ne: "fst (directoryFingerprint sha1 dir) \<noteq> []" using h(4) by (rule fingerprint_ok_nonempty)
    obtain w1 where n: "Notify ?w = Inr w1" using Notify_total[OF w] by blast
    obtain fp where fp: "directoryFingerprint sha1 dir = (fp, None)"
      using h(4) by (cases "directoryFingerprint sha1 dir") auto
    show ?thesis using ne n fp h(1,2,3) by (simp add: watcherSelect_def)
  qed
  have d: "\<exists>s'. step sha1 (OpWatch k (WTick dir)) s = Inr s' \<and>
               watchers s' = watchers s \<and> chans (wld s') = chans ?w \<and> rl (wld s') = rl ?w \<and>
               logs (wld s') =
                 (if exited (watchers s ! k) then logs ?w
                  else logs ?w @ [''dev reload watcher failed to scan directory err='' @ e])"
    if "k < length (watchers s)" "snd (directoryFingerprint sha1 dir) = Some e" for k dir e
    using fingerprint_error_empty[OF that(2)] lg that(1)
    by (simp add: watcherSelect_def logError_def)
  have e: "\<forall>k < length (watchers s). exited (watchers s ! k) \<longrightarrow> ctxs ?w ! wctx (watchers s ! k)"
    using wo unfolding watchers_ok_def by simp
  have f: "exited (watchers s' ! k) = exited (watchers s ! k)"
    if h: "k < length (watchers s)" "step sha1 (OpWatch k (WTick dir)) s = Inr s'" for k dir s'
  proof -
    from h obtain wt w1 where r: "watcherSelect sha1 (WTick dir) (watchers s ! k) ?w = Inr (wt, w1)"
      "s' = s\<lparr>wld := w1, watchers := (watchers s)[k := wt]\<rparr>"
      by (auto split: prod.splits sum.splits)
    show ?thesis using watcherSelect_tick_exited[OF r(1)] r(2) h(1) by simp
  qed
  show ?thesis using a b c d e f by blast
qed


theorem watcher_survives_read_errors_witness:
  "\<exists>s w1. run (\<lambda>b. 0) [OpStart (StatErr ''gone'')]
          (boot \<lparr>cfgLogger = Some (), cfgRoute = ''/dev/reload'', cfgEnabled = True, cfgMaxAge = 0\<rparr>) = Inr s \<and>
     lastFingerprint (watchers s ! 0) = [] \<and> \<not> exited (watchers s ! 0) \<and>
     logs (wld s) = [''dev reload watcher failed to read directory err=gone''] \<and>
     (\<exists>s'. step (\<lambda>b. 0) (OpWatch 0 (WTick (StatErr ''lost''))) s = Inr s' \<and>
        watchers s' = watchers s \<and>
        logs (wld s') = [''dev reload watcher failed to read directory err=gone'',
                         ''dev reload watcher failed to scan directory err=lost'']) \<and>
     fst (directoryFingerprint (\<lambda>b. 0) (Root (Dir []))) \<noteq> [] \<and>
     Notify (wld s) = Inr w1 \<and>
     step (\<lambda>b. 0) (OpWatch 0 (WTick (Root (Dir [])))) s =
       Inr (s\<lparr>wld := w1,
              watchers := (watchers s)[0 := (watchers s ! 0)
                \<lparr>lastFingerprint := fst (directoryFingerprint (\<lambda>b. 0) (Root (Dir [])))\<rparr>]\<rparr>)"
proof -
  let ?cfg = "\<lparr>cfgLogger = Some (), cfgRoute = ''/dev/reload'', cfgEnabled = True, cfgMaxAge = 0\<rparr>"
  obtain s where s: "run (\<lambda>b. 0) [OpStart (StatErr ''gone'')] (boot ?cfg) = Inr s"
    by (simp add: ev watcherBegin_def logError_def directoryFingerprint_def WalkDir_def)
  then have c: "0 < length (watchers s)" "lastFingerprint (watchers s ! 0) = []" "\<not> exited (watchers s ! 0)"
    "logs (wld s) = [''dev reload watcher failed to read directory err=gone'']"
    by (auto simp: ev watcherBegin_def logError_def directoryFingerprint_def WalkDir_def)
  have d: "snd (directoryFingerprint (\<lambda>b. 0) (Root (Dir []))) = None"
    "snd (directoryFingerprint (\<lambda>b. 0) (StatErr ''lost'')) = Some ''lost''"
    by (simp_all add: directoryFingerprint_def WalkDir_def)
  have l: "cfgLogger ?cfg = Some ()" by simp
  note t = watcher_survives_read_errors[OF s l]
  from t c(1) d(2) obtain s' where s': "step (\<lambda>b. 0) (OpWatch 0 (WTick (StatErr ''lost''))) s = Inr s'"
    "watchers s' = watchers s"
    "logs (wld s') =
       (if exited (watchers s ! 0) then logs (wld s)
        else logs (wld s) @ [''dev reload watcher failed to scan directory err='' @ ''lost''])"
    by blast
  from s'(3) c(3,4) have "logs (wld s') = [''dev reload watcher failed to read directory err=gone'',
                         ''dev reload watcher failed to scan directory err=lost'']"
    by simp
  with t c d(1) s s'(1,2) show ?thesis by blast
qed

text \<open>
  Without a logger C6 fails: \<^verbatim>\<open>New\<close> stores the \<^verbatim>\<open>nil\<close> logger of the configuration as it
  is, and the watcher calls \<^verbatim>\<open>r.logger.Error\<close> on a failed read, at the start and on a
  tick alike, which dereferences \<^verbatim>\<open>nil\<close> and panics.
\<close>

theorem watcher_nil_logger_counterexample:
  "\<forall>sha1.
     run sha1 [OpStart (StatErr ''gone'')]
       (boot \<lparr>cfgLogger = None, cfgRoute = ''/dev/reload'', cfgEnabled = True, cfgMaxAge = 0\<rparr>)
       = Inl NilDereference \<and>
     run sha1 [OpStart (Root (Dir [])), OpWatch 0 (WTick (StatErr ''gone''))]
       (boot \<lparr>cfgLogger = None, cfgRoute = ''/dev/reload'', cfgEnabled = True, cfgMaxAge = 0\<rparr>)
       = Inl NilDereference"
  by (simp add: ev watcherBegin_def watcherSelect_def logError_def directoryFingerprint_def WalkDir_def)

subsection \<open>The stream handler\<close>








subsection \<open>The cache middleware and the configured age\<close>

lemma bitlen_pos: "0 < n \<Longrightarrow> bitlen n = 1 + bitlen (n div 2)"
  by (subst bitlen.simps) simp

lemma bitlen_nonpos: "n \<le> 0 \<Longrightarrow> bitlen n = 0"
  by (subst bitlen.simps) simp

lemma bitlen_ge0: "0 \<le> bitlen n"
proof (induction n rule: bitlen.induct)
  case (1 n)
  show ?case
  proof (cases "n \<le> 0")
    case True
    then show ?thesis by (simp add: bitlen_nonpos)
  next
    case False
    then show ?thesis using 1 by (simp add: bitlen_pos)
  qed
qed

lemma bitlen_bounds: "0 < n \<Longrightarrow> 2 ^ nat (bitlen n - 1) \<le> n \<and> n < 2 ^ nat (bitlen n)"
proof (induction n rule: bitlen.induct)
  case (1 n)
  show ?case
  proof (cases "n = 1")
    case True
    have "bitlen 1 = 1" by (simp add: bitlen_pos bitlen_nonpos)
    then show ?thesis using True by simp
  next
    case False
    then have h: "0 < n div 2" using 1(2) by simp
    have ih: "2 ^ nat (bitlen (n div 2) - 1) \<le> n div 2 \<and> n div 2 < 2 ^ nat (bitlen (n div 2))"
      using 1(1) 1(2) h by simp
    have b: "bitlen n = 1 + bitlen (n div 2)" using 1(2) by (rule bitlen_pos)
    have p: "1 \<le> bitlen (n div 2)" using h bitlen_pos[OF h] bitlen_ge0[of "n div 2 div 2"] by simp
    have e1: "nat (bitlen n - 1) = Suc (nat (bitlen (n div 2) - 1))" using b p by simp
    have e2: "nat (bitlen n) = Suc (nat (bitlen (n div 2)))" using b p by simp
    have dm: "n = 2 * (n div 2) + n mod 2" "0 \<le> n mod 2" "n mod 2 < 2" by simp_all
    have "2 * 2 ^ nat (bitlen (n div 2) - 1) \<le> n" using ih dm by linarith
    moreover have "n < 2 * 2 ^ nat (bitlen (n div 2))" using ih dm by linarith
    ultimately show ?thesis unfolding e1 e2 by simp
  qed
qed

lemma bitlen_unique:
  assumes "2 ^ k \<le> n" "n < 2 ^ Suc k"
  shows "bitlen n = int k + 1"
proof -
  have pos: "0 < n" using assms(1) by (smt (verit) zero_less_power)
  from bitlen_bounds[OF pos] have b: "2 ^ nat (bitlen n - 1) \<le> n" "n < 2 ^ nat (bitlen n)" by simp_all
  have p: "1 \<le> bitlen n" using bitlen_pos[OF pos] bitlen_ge0[of "n div 2"] by simp
  have "(2::int) ^ nat (bitlen n - 1) < 2 ^ Suc k" using b(1) assms(2) by linarith
  then have u: "nat (bitlen n - 1) < Suc k" by (simp only: power_strict_increasing_iff)
  have "(2::int) ^ k < 2 ^ nat (bitlen n)" using b(2) assms(1) by linarith
  then have l: "k < nat (bitlen n)" by (simp only: power_strict_increasing_iff)
  show ?thesis using u l p by linarith
qed

lemma bitlen_le53: "0 < x \<Longrightarrow> x < 2 ^ 53 \<Longrightarrow> 1 \<le> bitlen x \<and> bitlen x \<le> 53"
proof -
  assume pos: "0 < x" and lt: "x < 2 ^ 53"
  from bitlen_bounds[OF pos] have b: "2 ^ nat (bitlen x - 1) \<le> x" by simp
  have p: "1 \<le> bitlen x" using bitlen_pos[OF pos] bitlen_ge0[of "x div 2"] by simp
  have "(2::int) ^ nat (bitlen x - 1) < 2 ^ 53" using b lt by linarith
  then have "nat (bitlen x - 1) < 53" by (simp only: power_strict_increasing_iff)
  then show ?thesis using p by linarith
qed

lemma bitlen_shift:
  assumes "0 < x"
  shows "bitlen (x * 2 ^ j) = bitlen x + int j"
proof -
  from bitlen_bounds[OF assms] have b: "2 ^ nat (bitlen x - 1) \<le> x" "x < 2 ^ nat (bitlen x)" by simp_all
  have p: "1 \<le> bitlen x" using bitlen_pos[OF assms] bitlen_ge0[of "x div 2"] by simp
  let ?k = "nat (bitlen x - 1) + j"
  have "2 ^ nat (bitlen x - 1) * 2 ^ j \<le> x * (2::int) ^ j" using b(1) by simp
  then have l: "2 ^ ?k \<le> x * (2::int) ^ j" by (simp add: power_add)
  have "nat (bitlen x) = Suc (nat (bitlen x - 1))" using p by simp
  then have "x * (2::int) ^ j < 2 ^ Suc (nat (bitlen x - 1)) * 2 ^ j" using b(2) by simp
  then have u: "x * (2::int) ^ j < 2 ^ Suc ?k" by (simp add: power_add)
  show ?thesis using bitlen_unique[OF l u] p by simp
qed

lemma bitlen_pow2: "bitlen (2 ^ j) = int j + 1"
  by (rule bitlen_unique) simp_all

text \<open>An integer of at most 53 bits, given as a fraction over a power of two, is exact.\<close>

lemma roundPos_exact:
  assumes "0 < x" "x < 2 ^ 53"
  shows "roundPos (x * 2 ^ j) (2 ^ j) = (x * 2 ^ nat (53 - bitlen x), bitlen x - 53)"
proof -
  let ?b = "bitlen x"
  have b: "1 \<le> ?b" "?b \<le> 53" using bitlen_le53[OF assms] by simp_all
  from bitlen_bounds[OF assms(1)] have lo: "2 ^ nat (?b - 1) \<le> x" by simp
  have k: "bitlen (x * 2 ^ j) - bitlen (2 ^ j) = ?b - 1"
    by (simp add: bitlen_shift[OF assms(1)] bitlen_pow2)
  have t: "(2::int) ^ j * 2 ^ nat (?b - 1) \<le> x * 2 ^ j" using lo by simp
  have e: "?b - 1 - 52 \<le> 0" "nat (- (?b - 1 - 52)) = nat (53 - ?b)" "?b - 1 - 52 = ?b - 53"
    using b by simp_all
  have dv: "x * 2 ^ j * 2 ^ nat (53 - ?b) div 2 ^ j = x * 2 ^ nat (53 - ?b)"
    "x * 2 ^ j * 2 ^ nat (53 - ?b) mod 2 ^ j = 0"
    by (simp_all add: mult.assoc mult.left_commute)
  show ?thesis
    unfolding roundPos_def Let_def k
    using b t e dv by simp
qed

lemma float64_of_int_exact:
  assumes "0 < x" "x < 2 ^ 53"
  shows "float64_of_int x = (x * 2 ^ nat (53 - bitlen x), bitlen x - 53)"
  using roundPos_exact[OF assms, of 0] assms(1) by (simp add: float64_of_int_def roundRat_def)

lemma fdiv_zero: "fdiv (0, 0) b = (0, 0)"
  by (cases b) (simp add: fdiv_def roundRat_def Let_def)

lemma quo_whole: "0 \<le> n \<Longrightarrow> quo (n * 1000000000) 1000000000 = n"
  by (cases "n = 0") (simp_all add: quo_def)

lemma rem_whole: "rem (n * 1000000000) 1000000000 = 0"
  by (simp add: rem_def)

lemma float64_of_int_zero: "float64_of_int 0 = (0, 0)"
  by (simp add: float64_of_int_def roundRat_def)

lemma fadd_zero_zero: "fadd (0, 0) (0, 0) = (0, 0)"
  by (simp add: fadd_def roundRat_def)

lemma int_of_float64_zero: "int_of_float64 (0, 0) = 0"
  by (simp add: int_of_float64_def)

lemma fadd_zero_right_neg: "e < 0 \<Longrightarrow> fadd (m, e) (0, 0) = roundRat m (2 ^ nat (- e))"
  by (simp add: fadd_def Let_def min_def)

lemma fadd_zero_right_0: "fadd (m, 0) (0, 0) = roundRat m 1"
  by (simp add: fadd_def Let_def)

lemma roundRat_pos: "0 < p \<Longrightarrow> roundRat p q = roundPos p q"
  by (simp add: roundRat_def)

lemma fadd_exact_zero:
  assumes "0 < n" "n < 2 ^ 53"
  shows "fadd (n * 2 ^ nat (53 - bitlen n), bitlen n - 53) (0, 0) = (n * 2 ^ nat (53 - bitlen n), bitlen n - 53)"
proof (cases "bitlen n = 53")
  case True
  have "fadd (n * 2 ^ nat (53 - bitlen n), bitlen n - 53) (0, 0) = fadd (n, 0) (0, 0)"
    unfolding True by simp
  also have "\<dots> = roundRat n 1" by (rule fadd_zero_right_0)
  also have "\<dots> = roundPos n 1" using assms(1) by (rule roundRat_pos)
  also have "\<dots> = roundPos (n * 2 ^ 0) (2 ^ 0)" by simp
  also have "\<dots> = (n * 2 ^ nat (53 - bitlen n), bitlen n - 53)" by (rule roundPos_exact[OF assms])
  finally show ?thesis .
next
  case False
  then have lt: "bitlen n - 53 < 0" using bitlen_le53[OF assms] by simp
  have c: "nat (- (bitlen n - 53)) = nat (53 - bitlen n)" by simp
  have mp: "0 < n * 2 ^ nat (53 - bitlen n)" using assms(1) by simp
  have "fadd (n * 2 ^ nat (53 - bitlen n), bitlen n - 53) (0, 0)
      = roundRat (n * 2 ^ nat (53 - bitlen n)) (2 ^ nat (53 - bitlen n))"
    unfolding fadd_zero_right_neg[OF lt] c by (rule refl)
  also have "\<dots> = roundPos (n * 2 ^ nat (53 - bitlen n)) (2 ^ nat (53 - bitlen n))"
    using mp by (rule roundRat_pos)
  also have "\<dots> = (n * 2 ^ nat (53 - bitlen n), bitlen n - 53)" by (rule roundPos_exact[OF assms])
  finally show ?thesis .
qed

lemma int_of_float64_exact:
  assumes "0 < n" "n < 2 ^ 53"
  shows "int_of_float64 (n * 2 ^ nat (53 - bitlen n), bitlen n - 53) = n"
proof (cases "bitlen n = 53")
  case True
  then show ?thesis by (simp add: int_of_float64_def)
next
  case False
  then have lt: "bitlen n < 53" using bitlen_le53[OF assms] by simp
  have mp: "0 < n * 2 ^ nat (53 - bitlen n)" using assms(1) by simp
  have "nat (- (bitlen n - 53)) = nat (53 - bitlen n)" by simp
  then show ?thesis using lt mp assms(1) by (simp add: int_of_float64_def abs_mult)
qed

lemma Seconds_whole:
  assumes "0 \<le> n" "n < 2 ^ 53"
  shows "int_of_float64 (Seconds (n * 1000000000)) = n"
proof (cases "n = 0")
  case True
  have "Seconds 0 = (0, 0)"
    unfolding Seconds_def Let_def
    using quo_whole[of 0] rem_whole[of 0]
    by (simp add: float64_of_int_zero fdiv_zero fadd_zero_zero)
  then show ?thesis using True by (simp add: int_of_float64_zero)
next
  case False
  then have pos: "0 < n" using assms(1) by simp
  have "Seconds (n * 1000000000) = fadd (float64_of_int n) (fdiv (0, 0) (float64_of_int 1000000000))"
    unfolding Seconds_def Let_def quo_whole[OF assms(1)] rem_whole float64_of_int_zero by (rule refl)
  also have "\<dots> = fadd (n * 2 ^ nat (53 - bitlen n), bitlen n - 53) (0, 0)"
    unfolding fdiv_zero float64_of_int_exact[OF pos assms(2)] by (rule refl)
  also have "\<dots> = (n * 2 ^ nat (53 - bitlen n), bitlen n - 53)" by (rule fadd_exact_zero[OF pos assms(2)])
  finally show ?thesis using int_of_float64_exact[OF pos assms(2)] by simp
qed

lemma bitlen_ge1: "0 < n \<Longrightarrow> 1 \<le> bitlen n"
  using bitlen_pos[of n] bitlen_ge0[of "n div 2"] by simp

lemma bitlen_mono:
  assumes "0 < a" "a \<le> b"
  shows "bitlen a \<le> bitlen b"
proof -
  have pb: "0 < b" using assms by simp
  from bitlen_bounds[OF assms(1)] have l: "2 ^ nat (bitlen a - 1) \<le> a" by simp
  from bitlen_bounds[OF pb] have u: "b < 2 ^ nat (bitlen b)" by simp
  have "(2::int) ^ nat (bitlen a - 1) < 2 ^ nat (bitlen b)" using l u assms(2) by linarith
  then have "nat (bitlen a - 1) < nat (bitlen b)" by (simp only: power_strict_increasing_iff)
  then show ?thesis using bitlen_ge1[OF assms(1)] bitlen_ge1[OF pb] by linarith
qed

lemma bitlen_lt_pow:
  assumes "0 < a" "a < 2 ^ t"
  shows "bitlen a \<le> int t"
proof -
  from bitlen_bounds[OF assms(1)] have l: "2 ^ nat (bitlen a - 1) \<le> a" by simp
  have "(2::int) ^ nat (bitlen a - 1) < 2 ^ t" using l assms(2) by linarith
  then have "nat (bitlen a - 1) < t" by (simp only: power_strict_increasing_iff)
  then show ?thesis by linarith
qed

text \<open>The exponent that rounding gives to a fraction below \<open>2 ^ t\<close>.\<close>

lemma roundPos_exp_le:
  assumes "0 < p" "0 < q" "p < q * 2 ^ t"
  shows "snd (roundPos p q) \<le> int t - 53"
proof -
  let ?k = "bitlen p - bitlen q"
  have "bitlen p \<le> bitlen (q * 2 ^ t)" using assms(1,3) by (intro bitlen_mono) simp_all
  then have k: "?k \<le> int t" by (simp add: bitlen_shift[OF assms(2)])
  show ?thesis
  proof (cases "?k = int t")
    case True
    then have "0 \<le> ?k" "nat ?k = t" by simp_all
    then show ?thesis using assms(3) True by (simp add: roundPos_def Let_def)
  next
    case False
    then have "?k \<le> int t - 1" using k by simp
    then show ?thesis by (simp add: roundPos_def Let_def)
  qed
qed

text \<open>Rounding is to a nearest multiple of the unit.\<close>

lemma roundPos_nearest:
  assumes "0 < p" "0 < q" "roundPos p q = (m, e)" "e \<le> 0"
  shows "2 * (m * q - p * 2 ^ nat (- e)) \<le> q" "- q \<le> 2 * (m * q - p * 2 ^ nat (- e))" "0 \<le> m"
proof -
  define n where "n = p * 2 ^ nat (- e)"
  define r where "r = n mod q"
  define m0 where "m0 = n div q"
  have e: "e = snd (roundPos p q)" using assms(3) by simp
  have "fst (roundPos p q) =
      (if 2 * r < q then m0 else if q < 2 * r then m0 + 1 else if even m0 then m0 else m0 + 1)"
    using assms(4) unfolding e r_def m0_def n_def by (simp add: roundPos_def Let_def)
  then have m: "m = (if 2 * r < q then m0 else if q < 2 * r then m0 + 1 else if even m0 then m0 else m0 + 1)"
    using assms(3) by simp
  have dm: "m0 * q + r = n" unfolding m0_def r_def by simp
  have r: "0 \<le> r" "r < q" unfolding r_def using assms(2) by simp_all
  have n0: "0 \<le> n" unfolding n_def using assms(1) by simp
  have m0: "0 \<le> m0" unfolding m0_def using n0 assms(2) by (simp add: pos_imp_zdiv_nonneg_iff)
  consider "m = m0" "2 * r \<le> q" | "m = m0 + 1" "q \<le> 2 * r"
    using m by (auto split: if_splits)
  then have "2 * (m * q - n) \<le> q \<and> - q \<le> 2 * (m * q - n)"
  proof cases
    case 1
    have "m * q - n = - r" unfolding 1(1) using dm by simp
    then show ?thesis using 1(2) r assms(2) by simp
  next
    case 2
    have "m * q = m0 * q + q" unfolding 2(1) by (simp add: algebra_simps)
    then have "m * q - n = q - r" using dm by simp
    then show ?thesis using 2(2) r assms(2) by simp
  qed
  then show "2 * (m * q - p * 2 ^ nat (- e)) \<le> q" "- q \<le> 2 * (m * q - p * 2 ^ nat (- e))"
    unfolding n_def by simp_all
  show "0 \<le> m" using m m0 by (auto split: if_splits)
qed

lemma quo_rem_nonneg:
  assumes "0 \<le> d"
  shows "quo d 1000000000 = d div 1000000000" "rem d 1000000000 = d mod 1000000000"
  using assms by (cases "d = 0"; simp add: quo_def rem_def)+

lemma bitlen_1e9: "bitlen 1000000000 = 30"
  using bitlen_unique[of 29 1000000000] by simp

lemma float64_1e9: "float64_of_int 1000000000 = (1000000000 * 2 ^ 23, - 23)"
  using float64_of_int_exact[of 1000000000] by (simp add: bitlen_1e9)

lemma fdiv_nsec:
  assumes "0 < r" "r < 1000000000"
  shows "fdiv (float64_of_int r) (float64_of_int 1000000000) =
     roundPos (r * 2 ^ nat (53 - bitlen r)) (1000000000 * 2 ^ nat (53 - bitlen r))"
proof -
  have r53: "r < 2 ^ 53" using assms(2) by simp
  have r30: "r < 2 ^ 30" using assms(2) by simp
  have b: "1 \<le> bitlen r" "bitlen r \<le> 30"
    using bitlen_ge1[OF assms(1)] bitlen_lt_pow[OF assms(1) r30] by simp_all
  define j where "j = nat (53 - bitlen r)"
  have fr: "float64_of_int r = (r * 2 ^ j, bitlen r - 53)"
    unfolding j_def by (rule float64_of_int_exact[OF assms(1) r53])
  have pp: "0 < r * 2 ^ j" using assms(1) by simp
  show ?thesis
  proof (cases "bitlen r = 30")
    case True
    then have j23: "j = 23" unfolding j_def by simp
    show ?thesis unfolding fr float64_1e9 j_def[symmetric]
      using pp True by (simp add: fdiv_def Let_def roundRat_def j23)
  next
    case False
    then have lt: "\<not> (- 23 \<le> bitlen r - 53)" using b by simp
    have "j = 23 + nat (30 - bitlen r)" unfolding j_def using b by simp
    then have pw: "(2::int) ^ j = 2 ^ 23 * 2 ^ nat (30 - bitlen r)" by (simp only: power_add)
    have nn: "nat (- 23 - (bitlen r - 53)) = nat (30 - bitlen r)" by simp
    have q: "(1000000000 * 2 ^ 23) * 2 ^ nat (- 23 - (bitlen r - 53)) = 1000000000 * (2::int) ^ j"
      unfolding nn pw by simp
    have qp: "0 < 1000000000 * (2::int) ^ j" by simp
    have "fdiv (r * 2 ^ j, bitlen r - 53) (1000000000 * 2 ^ 23, - 23)
        = roundRat (r * 2 ^ j) ((1000000000 * 2 ^ 23) * 2 ^ nat (- 23 - (bitlen r - 53)))"
      using lt by (simp add: fdiv_def Let_def del: power_numeral)
    also have "\<dots> = roundRat (r * 2 ^ j) (1000000000 * 2 ^ j)" unfolding q by (rule refl)
    also have "\<dots> = roundPos (r * 2 ^ j) (1000000000 * 2 ^ j)" using pp by (rule roundRat_pos)
    finally show ?thesis unfolding fr float64_1e9 j_def[symmetric] .
  qed
qed

lemma fadd_sec:
  assumes "0 \<le> S" "S < 2 ^ 24" "eQ \<le> - 53"
  shows "fadd (float64_of_int S) (mQ, eQ) = roundRat (S * 2 ^ nat (- eQ) + mQ) (2 ^ nat (- eQ))"
proof (cases "S = 0")
  case True
  have m: "min 0 eQ = eQ" using assms(3) by simp
  show ?thesis unfolding True float64_of_int_zero using assms(3)
    by (simp add: fadd_def Let_def m)
next
  case False
  then have pos: "0 < S" using assms(1) by simp
  have s53: "S < 2 ^ 53" using assms(2) by simp
  have b: "1 \<le> bitlen S" "bitlen S \<le> 24"
    using bitlen_ge1[OF pos] bitlen_lt_pow[OF pos assms(2)] by simp_all
  have m: "min (bitlen S - 53) eQ = eQ" using assms(3) b by simp
  have "nat (- eQ) = nat (53 - bitlen S) + nat (bitlen S - 53 - eQ)" using assms(3) b by simp
  then have pw: "(2::int) ^ nat (- eQ) = 2 ^ nat (53 - bitlen S) * 2 ^ nat (bitlen S - 53 - eQ)"
    by (simp only: power_add)
  have lt: "\<not> 0 \<le> eQ" using assms(3) by simp
  show ?thesis unfolding float64_of_int_exact[OF pos s53]
    using lt by (simp add: fadd_def Let_def m pw mult.assoc)
qed

lemma nsec_bound:
  assumes "2 * (mQ * 1000000000 - 1073741824 * U) \<le> 1000000000" "U \<le> 999999999 * T"
    and "8388608 \<le> (T::int)"
  shows "mQ + T < 1073741824 * T"
proof -
  have "2000000000 * mQ \<le> 1000000000 + 2147483648 * U" using assms(1) by simp
  moreover have "2147483648 * U \<le> 2147483648 * (999999999 * T)" using assms(2) by simp
  ultimately have "2000000000 * mQ \<le> 1000000000 + 2147483645852516352 * T" by simp
  moreover have "1000000000 + 2147483645852516352 * T < 2147483646000000000 * T"
    using assms(3) by simp
  ultimately have "2000000000 * mQ < 2000000000 * (1073741823 * T)" by simp
  then have "mQ < 1073741823 * T" by simp
  then show ?thesis by simp
qed

lemma Seconds_frac:
  assumes "0 \<le> S" "S < 2 ^ 24" "0 < r" "r < 1000000000"
  shows "int_of_float64 (Seconds (S * 1000000000 + r)) = S"
proof -
  let ?d = "S * 1000000000 + r"
  have d0: "0 \<le> ?d" using assms(1,3) by simp
  have dv: "?d div 1000000000 = S" "?d mod 1000000000 = r" using assms(3,4) by simp_all
  have qr: "quo ?d 1000000000 = S" "rem ?d 1000000000 = r"
    using quo_rem_nonneg[OF d0] dv by simp_all
  define j where "j = nat (53 - bitlen r)"
  obtain mQ eQ where Q: "roundPos (r * 2 ^ j) (1000000000 * 2 ^ j) = (mQ, eQ)"
    by (cases "roundPos (r * 2 ^ j) (1000000000 * 2 ^ j)")
  have pp: "0 < r * 2 ^ j" "0 < 1000000000 * (2::int) ^ j" using assms(3) by simp_all
  have "r * 2 ^ j < 1000000000 * 2 ^ j * 2 ^ 0" using assms(4) by simp
  from roundPos_exp_le[OF pp this] have eQ: "eQ \<le> - 53" unfolding Q by simp
  define EQ where "EQ = nat (- eQ)"
  define P :: int where "P = 2 ^ EQ"
  define T :: int where "T = 2 ^ (EQ - 30)"
  have EQ53: "53 \<le> EQ" unfolding EQ_def using eQ by simp
  have Ppos: "0 < P" unfolding P_def by simp
  have "(2::int) ^ EQ = 2 ^ (30 + (EQ - 30))" using EQ53 by simp
  also have "\<dots> = 2 ^ 30 * 2 ^ (EQ - 30)" by (rule power_add)
  finally have PT: "P = 1073741824 * T" unfolding P_def T_def by simp
  have "(2::int) ^ 23 \<le> 2 ^ (EQ - 30)" using EQ53 by (intro power_increasing) simp_all
  then have T23: "8388608 \<le> T" unfolding T_def by simp
  have e0: "eQ \<le> 0" using eQ by simp
  from roundPos_nearest[OF pp Q e0]
  have nr: "2 * (mQ * (1000000000 * 2 ^ j) - r * 2 ^ j * P) \<le> 1000000000 * 2 ^ j" and mQ0: "0 \<le> mQ"
    unfolding P_def EQ_def by simp_all
  have "(2 * (mQ * 1000000000 - r * P)) * 2 ^ j = 2 * (mQ * (1000000000 * 2 ^ j) - r * 2 ^ j * P)"
    by (simp add: algebra_simps)
  then have "(2 * (mQ * 1000000000 - r * P)) * 2 ^ j \<le> 1000000000 * 2 ^ j" using nr by simp
  then have nr': "2 * (mQ * 1000000000 - r * P) \<le> 1000000000"
    by (simp only: mult_le_cancel_right) simp
  define U where "U = r * T"
  have rT: "U \<le> 999999999 * T"
    unfolding U_def using assms(4) T23 by (intro mult_right_mono) simp_all
  have rP: "r * P = 1073741824 * U" unfolding PT U_def by simp
  have nr'': "2 * (mQ * 1000000000 - 1073741824 * U) \<le> 1000000000"
    using nr' unfolding rP .
  have "mQ + T < 1073741824 * T"
    using nr'' rT T23 by (rule nsec_bound)
  then have mQb: "mQ + T < P" unfolding PT .
  \<comment> \<open>the sum of the whole seconds and the fraction\<close>
  define n where "n = S * P + mQ"
  have sec: "Seconds ?d = roundRat n P"
    unfolding Seconds_def Let_def qr fdiv_nsec[OF assms(3,4)] j_def[symmetric] Q
      fadd_sec[OF assms(1,2) eQ] n_def P_def EQ_def by (rule refl)
  have SP: "0 \<le> S * P" using assms(1) Ppos by simp
  have n0: "0 \<le> n" unfolding n_def using SP mQ0 by simp
  show ?thesis
  proof (cases "n = 0")
    case True
    then have "S * P = 0" using SP mQ0 unfolding n_def by linarith
    then have "S = 0" using Ppos by simp
    then show ?thesis unfolding sec True by (simp add: roundRat_def int_of_float64_def)
  next
    case False
    then have np: "0 < n" using n0 by simp
    obtain m' e' where V: "roundPos n P = (m', e')" by (cases "roundPos n P")
    have "(S + 1) * P \<le> 2 ^ 24 * P" using assms(2) Ppos by (intro mult_right_mono) simp_all
    moreover have "n < (S + 1) * P" unfolding n_def using mQb T23 by (simp add: algebra_simps)
    ultimately have "n < P * 2 ^ 24" by (simp add: mult.commute)
    from roundPos_exp_le[OF np Ppos this] have e': "e' \<le> - 29" unfolding V by simp
    define E' where "E' = nat (- e')"
    define R :: int where "R = 2 ^ E'"
    define R' :: int where "R' = 2 ^ (E' - 29)"
    have E29: "29 \<le> E'" unfolding E'_def using e' by simp
    have Rpos: "0 < R" unfolding R_def by simp
    have "(2::int) ^ E' = 2 ^ (29 + (E' - 29))" using E29 by simp
    also have "\<dots> = 2 ^ 29 * 2 ^ (E' - 29)" by (rule power_add)
    finally have RR: "R = 536870912 * R'" unfolding R_def R'_def by simp
    have R'1: "1 \<le> R'" unfolding R'_def by simp
    have e'0: "e' \<le> 0" using e' by simp
    define a where "a = m' * P"
    define b where "b = n * R"
    define c where "c = S * R * P"
    define g where "g = mQ * R"
    define h where "h = R * P"
    define k where "k = T * R"
    from roundPos_nearest[OF np Ppos V e'0]
    have up: "2 * (a - b) \<le> P" and lo: "- P \<le> 2 * (a - b)" and m'0: "0 \<le> m'"
      unfolding R_def E'_def a_def b_def by simp_all
    have nR: "b = c + g" unfolding n_def b_def c_def g_def by (simp add: algebra_simps)
    have mQR0: "0 \<le> g" unfolding g_def using mQ0 Rpos by simp
    have low: "S * R \<le> m'"
    proof (rule ccontr)
      assume "\<not> S * R \<le> m'"
      then have "m' + 1 \<le> S * R" by simp
      then have "(m' + 1) * P \<le> S * R * P" using Ppos by (intro mult_right_mono) simp_all
      then have "a + P \<le> c" unfolding a_def c_def by (simp add: algebra_simps)
      then show False using lo nR mQR0 Ppos by presburger
    qed
    have "mQ \<le> P - T - 1" using mQb by simp
    then have "mQ * R \<le> (P - T - 1) * R" using Rpos by (intro mult_right_mono) simp_all
    then have mQR: "g \<le> h - k - R" unfolding g_def h_def k_def by (simp add: algebra_simps)
    have "P * 1 \<le> P * R'" using R'1 Ppos by (intro mult_left_mono) simp_all
    then have "P \<le> P * R'" by simp
    moreover have "P * R' = 2 * k" unfolding PT RR k_def by (simp add: algebra_simps)
    ultimately have TR: "P \<le> 2 * k" by simp
    have upp: "m' < (S + 1) * R"
    proof (rule ccontr)
      assume "\<not> m' < (S + 1) * R"
      then have "(S + 1) * R \<le> m'" by simp
      then have "(S + 1) * R * P \<le> m' * P" using Ppos by (intro mult_right_mono) simp_all
      then have "c + h \<le> a" unfolding a_def c_def h_def by (simp add: algebra_simps)
      then show False using up nR mQR TR Rpos by presburger
    qed
    have dvS: "m' div R = S"
    proof (rule int_div_pos_eq[of m' R S "m' - S * R"])
      show "m' = R * S + (m' - S * R)" by (simp add: algebra_simps)
      show "0 \<le> m' - S * R" using low by simp
      show "m' - S * R < R" using upp by (simp add: algebra_simps)
    qed
    have neg: "\<not> 0 \<le> e'" using e' by simp
    have "int_of_float64 (m', e') = sgn m' * (m' div R)"
      using neg m'0 unfolding R_def E'_def by (simp add: int_of_float64_def)
    also have "\<dots> = S"
    proof (cases "m' = 0")
      case True
      then have "S * R \<le> 0" using low by simp
      then have "S \<le> 0" using Rpos by (simp add: mult_le_0_iff)
      then show ?thesis using True assms(1) by simp
    next
      case False
      then have "0 < m'" using m'0 by simp
      then show ?thesis using dvS by simp
    qed
    finally show ?thesis unfolding sec roundRat_pos[OF np] V .
  qed
qed

lemma Seconds_nonneg:
  assumes "0 \<le> d" "d < 16777216000000000"
  shows "int_of_float64 (Seconds d) = d div 1000000000"
proof -
  define S where "S = d div 1000000000"
  define r where "r = d mod 1000000000"
  have d: "d = S * 1000000000 + r" unfolding S_def r_def by simp
  have r: "0 \<le> r" "r < 1000000000" unfolding r_def by simp_all
  have S0: "0 \<le> S" unfolding S_def using assms(1) by (simp add: pos_imp_zdiv_nonneg_iff)
  have "S * 1000000000 < 16777216 * 1000000000" using d r(1) assms(2) by simp
  then have S24: "S < 2 ^ 24" by simp
  show ?thesis
  proof (cases "r = 0")
    case True
    have "S < 2 ^ 53" using S24 by simp
    from Seconds_whole[OF S0 this] show ?thesis unfolding d True by simp
  next
    case False
    then have "0 < r" using r(1) by simp
    from Seconds_frac[OF S0 S24 this r(2)] show ?thesis unfolding d using r by simp
  qed
qed

text \<open>The model is symmetric: a negative duration gives the negated seconds.\<close>

lemma roundRat_minus: "roundRat (- p) q = (case roundRat p q of (m, e) \<Rightarrow> (- m, e))"
  by (cases "roundPos p q"; cases "roundPos (- p) q") (simp add: roundRat_def)

lemma float64_of_int_minus:
  "float64_of_int (- x) = (case float64_of_int x of (m, e) \<Rightarrow> (- m, e))"
  unfolding float64_of_int_def by (rule roundRat_minus)

lemma fdiv_minus:
  "fdiv (- m1, e1) b = (case fdiv (m1, e1) b of (m, e) \<Rightarrow> (- m, e))"
proof (cases b)
  case (Pair m2 e2)
  show ?thesis unfolding Pair
    using roundRat_minus[of "if e2 \<le> e1 then m1 * 2 ^ nat (e1 - e2) else m1"
                           "if e2 \<le> e1 then m2 else m2 * 2 ^ nat (e2 - e1)"]
      roundRat_minus[of "- (if e2 \<le> e1 then m1 * 2 ^ nat (e1 - e2) else m1)"
                           "- (if e2 \<le> e1 then m2 else m2 * 2 ^ nat (e2 - e1))"]
    by (simp add: fdiv_def Let_def split: prod.splits if_splits)
qed

lemma fadd_minus:
  "fadd (- m1, e1) (- m2, e2) = (case fadd (m1, e1) (m2, e2) of (m, e) \<Rightarrow> (- m, e))"
proof -
  define e where "e = min e1 e2"
  define n where "n = m1 * 2 ^ nat (e1 - e) + m2 * 2 ^ nat (e2 - e)"
  have n': "(- m1) * 2 ^ nat (e1 - e) + (- m2) * 2 ^ nat (e2 - e) = - n" unfolding n_def by simp
  have a: "fadd (m1, e1) (m2, e2) =
      (if 0 \<le> e then roundRat (n * 2 ^ nat e) 1 else roundRat n (2 ^ nat (- e)))"
    unfolding fadd_def Let_def prod.case e_def n_def by (rule refl)
  have b: "fadd (- m1, e1) (- m2, e2) =
      (if 0 \<le> e then roundRat ((- n) * 2 ^ nat e) 1 else roundRat (- n) (2 ^ nat (- e)))"
    unfolding fadd_def Let_def prod.case e_def[symmetric] n' by (rule refl)
  have c: "(- n) * 2 ^ nat e = - (n * 2 ^ nat e)" by simp
  show ?thesis unfolding a b c roundRat_minus by simp
qed

lemma int_of_float64_minus: "int_of_float64 (- m, e) = - int_of_float64 (m, e)"
  by (simp add: int_of_float64_def)

lemma Seconds_minus: "int_of_float64 (Seconds (- d)) = - int_of_float64 (Seconds d)"
proof -
  have q: "quo (- d) 1000000000 = - quo d 1000000000" "rem (- d) 1000000000 = - rem d 1000000000"
    by (simp_all add: quo_def rem_def)
  obtain ma ea where a: "float64_of_int (quo d 1000000000) = (ma, ea)"
    by (cases "float64_of_int (quo d 1000000000)")
  obtain mb eb where b: "float64_of_int (rem d 1000000000) = (mb, eb)"
    by (cases "float64_of_int (rem d 1000000000)")
  obtain mc ec where c: "fdiv (mb, eb) (float64_of_int 1000000000) = (mc, ec)"
    by (cases "fdiv (mb, eb) (float64_of_int 1000000000)")
  obtain mf ef where f: "fadd (ma, ea) (mc, ec) = (mf, ef)"
    by (cases "fadd (ma, ea) (mc, ec)")
  have s: "Seconds d = (mf, ef)" unfolding Seconds_def Let_def a b c f by (rule refl)
  have "Seconds (- d) = fadd (- ma, ea) (fdiv (- mb, eb) (float64_of_int 1000000000))"
    unfolding Seconds_def Let_def q float64_of_int_minus a b by simp
  also have "\<dots> = fadd (- ma, ea) (- mc, ec)" unfolding fdiv_minus c by simp
  also have "\<dots> = (- mf, ef)" unfolding fadd_minus f by simp
  finally show ?thesis unfolding s by (simp add: int_of_float64_minus)
qed

lemma Seconds_trunc:
  assumes "\<bar>d\<bar> < 16777216000000000"
  shows "int_of_float64 (Seconds d) = quo d 1000000000"
proof (cases "0 \<le> d")
  case True
  then have "d < 16777216000000000" using assms by simp
  from Seconds_nonneg[OF True this] show ?thesis using quo_rem_nonneg(1)[OF True] by simp
next
  case False
  then have p: "0 \<le> - d" "- d < 16777216000000000" using assms by simp_all
  have "int_of_float64 (Seconds d) = - int_of_float64 (Seconds (- d))"
    using Seconds_minus[of "- d"] by simp
  also have "\<dots> = - ((- d) div 1000000000)" unfolding Seconds_nonneg[OF p] by (rule refl)
  also have "\<dots> = quo d 1000000000" using False by (simp add: quo_def)
  finally show ?thesis .
qed

lemma step_maxAge: "step sha1 x s = Inr s' \<Longrightarrow> maxAge (rl (wld s')) = maxAge (rl (wld s))"
proof (cases x)
  case OpSubscribe
  assume "step sha1 x s = Inr s'"
  then show ?thesis using OpSubscribe subscribe_frame[of "wld s"]
    by (cases "subscribe (wld s)") auto
next
  case (OpCancel k)
  assume "step sha1 x s = Inr s'"
  then show ?thesis using OpCancel runCancel_frame[of "fst (subs s ! k)" "wld s"]
    by (auto split: if_splits sum.splits)
next
  case OpNotify
  assume "step sha1 x s = Inr s'"
  then show ?thesis using OpNotify Notify_same[of "wld s"] by (auto split: sum.splits)
next
  case OpClose
  assume "step sha1 x s = Inr s'"
  then show ?thesis using OpClose Close_frame[of "wld s"] by (auto split: sum.splits)
next
  case (OpSetEnabled b)
  assume "step sha1 x s = Inr s'"
  then show ?thesis using OpSetEnabled by (auto simp: SetEnabled_def)
next
  case (OpRecv k)
  assume "step sha1 x s = Inr s'"
  then show ?thesis using OpRecv by (auto split: if_splits option.splits)
next
  case (OpStart dir)
  assume "step sha1 x s = Inr s'"
  then show ?thesis using OpStart
    by (auto simp: Start_def Let_def split: prod.splits sum.splits dest!: watcherBegin_frame)
next
  case (OpWatch k sel)
  assume "step sha1 x s = Inr s'"
  then show ?thesis using OpWatch
    by (auto split: if_splits prod.splits sum.splits dest!: watcherSelect_frame)
qed

lemma run_maxAge: "run sha1 xs s = Inr s' \<Longrightarrow> maxAge (rl (wld s')) = maxAge (rl (wld s))"
proof (induction xs arbitrary: s)
  case Nil
  then show ?case by simp
next
  case (Cons x xs)
  then show ?case by (auto split: sum.splits dest: step_maxAge)
qed

text \<open>
  Claim C9, as the code has it. In every state a program can reach: while the flag is off
  the middleware calls the wrapped handler with the response writer as it is; while it is
  on, it calls the handler with the header \<^verbatim>\<open>Cache-Control\<close> set to
  \<^verbatim>\<open>stale-while-revalidate, max-age=\<close> followed by the decimal \<^verbatim>\<open>maxAge\<close>; and \<^verbatim>\<open>maxAge\<close> is
  still what \<^verbatim>\<open>New\<close> computed, \<^verbatim>\<open>int(config.MaxAge.Seconds())\<close>, the seconds of the duration
  as a \<^verbatim>\<open>float64\<close> with the fraction discarded. For a duration of magnitude below
  \<open>2 ^ 24\<close> seconds (16777216 s, about 194 days), and for a duration of \<open>n\<close> whole seconds,
  \<open>0 \<le> n < 2 ^ 53\<close>, that is the duration truncated to whole seconds.
\<close>

theorem CacheMiddleware_header:
  assumes "run sha1 ops (boot config) = Inr s"
  shows "(\<not> Enabled (wld s) \<longrightarrow> CacheMiddleware handler rw rq (wld s) = handler rw rq (wld s)) \<and>
         (Enabled (wld s) \<longrightarrow>
            CacheMiddleware handler rw rq (wld s) =
              handler (Set ''Cache-Control''
                         (''stale-while-revalidate, max-age='' @ fmtD (maxAge (rl (wld s)))) rw)
                rq (wld s)) \<and>
         maxAge (rl (wld s)) = int_of_float64 (Seconds (cfgMaxAge config)) \<and>
         (\<bar>cfgMaxAge config\<bar> < 16777216000000000 \<longrightarrow>
            maxAge (rl (wld s)) = spec_whole_seconds (cfgMaxAge config)) \<and>
         (\<forall>n. 0 \<le> n \<and> n < 2 ^ 53 \<and> cfgMaxAge config = n * 1000000000 \<longrightarrow>
            maxAge (rl (wld s)) = n \<and> spec_whole_seconds (cfgMaxAge config) = n)"
proof -
  have m: "maxAge (rl (wld s)) = int_of_float64 (Seconds (cfgMaxAge config))"
    using run_maxAge[OF assms] by (simp add: boot_def newWorld_def New_def)
  have w: "\<forall>n. 0 \<le> n \<and> n < 2 ^ 53 \<and> cfgMaxAge config = n * 1000000000 \<longrightarrow>
            maxAge (rl (wld s)) = n \<and> spec_whole_seconds (cfgMaxAge config) = n"
    using m Seconds_whole quo_whole by (simp add: spec_whole_seconds_def)
  have t: "\<bar>cfgMaxAge config\<bar> < 16777216000000000 \<longrightarrow>
            maxAge (rl (wld s)) = spec_whole_seconds (cfgMaxAge config)"
    using m Seconds_trunc[of "cfgMaxAge config"] by (simp add: spec_whole_seconds_def)
  show ?thesis using m w t by (simp add: CacheMiddleware_def)
qed

theorem CacheMiddleware_header_witness:
  "\<exists>s. run (\<lambda>b. 0) [OpSetEnabled False, OpSetEnabled True]
          (boot \<lparr>cfgLogger = Some (), cfgRoute = ''/dev/reload'', cfgEnabled = False,
                 cfgMaxAge = 3600999999999\<rparr>) = Inr s \<and>
     Enabled (wld s) \<and> maxAge (rl (wld s)) = 3600 \<and>
     CacheMiddleware (\<lambda>rw rq w. hdr rw)
       \<lparr>hdr = [], code = None, out = [], flushes = 0, isFlusher = True, broken = False\<rparr>
       \<lparr>Method = ''GET''\<rparr> (wld s) =
       [(''Cache-Control'', ''stale-while-revalidate, max-age=3600'')]"
proof -
  let ?cfg = "\<lparr>cfgLogger = Some (), cfgRoute = ''/dev/reload'', cfgEnabled = False,
                 cfgMaxAge = 3600999999999\<rparr>"
  let ?rw = "\<lparr>hdr = [], code = None, out = [], flushes = 0, isFlusher = True, broken = False\<rparr>"
  obtain s where s: "run (\<lambda>b. 0) [OpSetEnabled False, OpSetEnabled True] (boot ?cfg) = Inr s"
    by (simp add: ev)
  then have en: "Enabled (wld s)" by (auto simp: ev Enabled_def)
  have f: "fmtD 3600 = ''3600''" by code_simp
  have n: "\<bar>cfgMaxAge ?cfg\<bar> < 16777216000000000" by simp
  have q: "spec_whole_seconds (cfgMaxAge ?cfg) = 3600" by (simp add: spec_whole_seconds_def quo_def)
  from CacheMiddleware_header[OF s, of "\<lambda>rw rq w. hdr rw" ?rw "\<lparr>Method = ''GET''\<rparr>"] en n q
  have m: "maxAge (rl (wld s)) = 3600"
    and c: "CacheMiddleware (\<lambda>rw rq w. hdr rw) ?rw \<lparr>Method = ''GET''\<rparr> (wld s) =
      hdr (Set ''Cache-Control'' (''stale-while-revalidate, max-age='' @ fmtD (maxAge (rl (wld s)))) ?rw)"
    by simp_all
  show ?thesis using s en m c f by (simp add: Set_def)
qed

lemma digitsOf_16777217: "digitsOf 16777217 = ''16777217''"
proof -
  have "digitsOf 16777217 = digitsOf 1677721 @ [digitChar 7]" by (subst digitsOf_big) simp_all
  also have "digitsOf 1677721 = digitsOf 167772 @ [digitChar 1]" by (subst digitsOf_big) simp_all
  also have "digitsOf 167772 = digitsOf 16777 @ [digitChar 2]" by (subst digitsOf_big) simp_all
  also have "digitsOf 16777 = digitsOf 1677 @ [digitChar 7]" by (subst digitsOf_big) simp_all
  also have "digitsOf 1677 = digitsOf 167 @ [digitChar 7]" by (subst digitsOf_big) simp_all
  also have "digitsOf 167 = digitsOf 16 @ [digitChar 7]" by (subst digitsOf_big) simp_all
  also have "digitsOf 16 = digitsOf 1 @ [digitChar 6]" by (subst digitsOf_big) simp_all
  also have "digitsOf 1 = [digitChar 1]" by (rule digitsOf_small) simp
  finally show ?thesis by (simp add: digitChar_def)
qed

text \<open>
  The conversion is not truncation of the duration. \<^verbatim>\<open>Seconds\<close> adds the whole seconds and
  the fraction in \<^verbatim>\<open>float64\<close>, and the sum is rounded to 53 bits: for the duration
  16777216.999999999 s, just above the range, the nearest \<^verbatim>\<open>float64\<close> to the sum is
  16777217, so the header says \<^verbatim>\<open>max-age=16777217\<close>, while the duration truncated to whole
  seconds is 16777216.
\<close>

theorem CacheMiddleware_truncation_counterexample:
  "spec_whole_seconds 16777216999999999 = 16777216 \<and>
   maxAge (New \<lparr>cfgLogger = Some (), cfgRoute = ''/dev/reload'', cfgEnabled = True,
                 cfgMaxAge = 16777216999999999\<rparr>) = 16777217 \<and>
   CacheMiddleware (\<lambda>rw rq w. hdr rw)
     \<lparr>hdr = [], code = None, out = [], flushes = 0, isFlusher = True, broken = False\<rparr>
     \<lparr>Method = ''GET''\<rparr>
     (newWorld \<lparr>cfgLogger = Some (), cfgRoute = ''/dev/reload'', cfgEnabled = True,
                 cfgMaxAge = 16777216999999999\<rparr>) =
     [(''Cache-Control'', ''stale-while-revalidate, max-age=16777217'')]"
proof -
  have m: "int_of_float64 (Seconds 16777216999999999) = 16777217" by code_simp
  have f: "fmtD 16777217 = ''16777217''" by (simp add: fmtD_def digitsOf_16777217)
  have t: "spec_whole_seconds 16777216999999999 = 16777216" by (simp add: spec_whole_seconds_def quo_def)
  show ?thesis using m f t
    by (simp add: New_def newWorld_def CacheMiddleware_def Enabled_def Set_def)
qed

end
